theory Spec2Isabelle
  imports Main "HOL-Library.Sublist"
begin

section \<open>Protocol probes of sslh (probe.c)\<close>

text \<open>
  The probes of \<^verbatim>\<open>probe.c\<close> receive a pointer \<^verbatim>\<open>p\<close> and a length \<^verbatim>\<open>len\<close>: the
  bytes \<^verbatim>\<open>p[0] .. p[len-1]\<close> are what the client has sent so far. The model represents
  the pair by the list of these bytes (a \<^typ>\<open>string\<close>, whose elements are 8-bit
  characters), with \<^verbatim>\<open>len\<close> the length of the list as a C \<^verbatim>\<open>int\<close>. Every read of the
  source goes through \<open>rd\<close>, which fails with \<open>BufferOverread\<close> outside
  \<^verbatim>\<open>[0, len)\<close>, so that a probe that would read past the end of the slice has the value
  \<open>Inl BufferOverread\<close>.
\<close>

subsection \<open>Faults and probe results\<close>

datatype fault =
    BufferOverread               \<comment> \<open>a read of \<^verbatim>\<open>p[i]\<close> with \<^verbatim>\<open>i\<close> outside \<^verbatim>\<open>[0, len)\<close>\<close>
  | ProtocolIndexOutOfBounds int \<comment> \<open>\<^verbatim>\<open>cfg.protocols[i]\<close> with \<^verbatim>\<open>i\<close> outside \<^verbatim>\<open>[0, protocols_len)\<close>\<close>
  | FatalExit int                \<comment> \<open>\<^verbatim>\<open>exit(n)\<close>\<close>

text \<open>
  The probe results are the integer constants of \<^verbatim>\<open>probe.h\<close>. Their values are those
  of the table \<^verbatim>\<open>probe_str[3] = {"PROBE_NEXT", "PROBE_MATCH", "PROBE_AGAIN"}\<close> that
  \<^verbatim>\<open>probe_buffer\<close> indexes with a probe's result, and of the probes that return the C
  truth value of a comparison for MATCH (1) and NEXT (0).
\<close>

definition PROBE_NEXT :: int where "PROBE_NEXT = 0"
definition PROBE_MATCH :: int where "PROBE_MATCH = 1"
definition PROBE_AGAIN :: int where "PROBE_AGAIN = 2"

text \<open>The C truth value of a condition.\<close>

definition c_bool :: "bool \<Rightarrow> int" where
  "c_bool b = (if b then 1 else 0)"

subsection \<open>Reads and the C library functions the probes call\<close>

definition rd :: "string \<Rightarrow> nat \<Rightarrow> fault + char" where
  "rd p i = (if i < length p then Inr (p ! i) else Inl BufferOverread)"

text \<open>
  \<^verbatim>\<open>strncmp(&p[off], s, n) == 0\<close>, for a C string \<open>s\<close> (given without its terminating
  NUL): the bytes are compared one by one and the comparison stops at the first
  difference, after a NUL, or after \<open>n\<close> bytes.
\<close>

fun strncmp_eq :: "string \<Rightarrow> nat \<Rightarrow> string \<Rightarrow> nat \<Rightarrow> fault + bool" where
  "strncmp_eq p off s 0 = Inr True"
| "strncmp_eq p off [] (Suc n) =
     (case rd p off of Inl e \<Rightarrow> Inl e | Inr c \<Rightarrow> Inr (c = CHR 0x00))"
| "strncmp_eq p off (x # xs) (Suc n) =
     (case rd p off of
        Inl e \<Rightarrow> Inl e
      | Inr c \<Rightarrow>
          if c \<noteq> x then Inr False
          else if c = CHR 0x00 then Inr True
          else strncmp_eq p (Suc off) xs n)"

text \<open>
  \<^verbatim>\<open>memcmp(&p[off], s, n) == 0\<close> with \<open>s\<close> the \<open>n\<close> bytes compared against: all
  \<open>n\<close> bytes of both regions must be readable.
\<close>

fun memcmp_eq :: "string \<Rightarrow> nat \<Rightarrow> string \<Rightarrow> fault + bool" where
  "memcmp_eq p off [] = Inr True"
| "memcmp_eq p off (x # xs) =
     (case rd p off of
        Inl e \<Rightarrow> Inl e
      | Inr c \<Rightarrow>
          (case memcmp_eq p (Suc off) xs of
             Inl e \<Rightarrow> Inl e
           | Inr r \<Rightarrow> Inr (c = x \<and> r)))"

text \<open>
  \<^verbatim>\<open>memmem(p, len, needle, n) != NULL\<close>: is there an offset \<open>i\<close> with
  \<open>i + n \<le> len\<close> at which the \<open>n\<close> bytes of the needle occur? The candidate offsets
  are tried in increasing order.
\<close>

fun memmem_scan :: "string \<Rightarrow> string \<Rightarrow> nat list \<Rightarrow> fault + bool" where
  "memmem_scan p needle [] = Inr False"
| "memmem_scan p needle (i # is) =
     (case memcmp_eq p i needle of
        Inl e \<Rightarrow> Inl e
      | Inr found \<Rightarrow> if found then Inr True else memmem_scan p needle is)"

definition memmem :: "string \<Rightarrow> nat \<Rightarrow> string \<Rightarrow> fault + bool" where
  "memmem p len needle =
     (if len < length needle then Inr False
      else memmem_scan p needle [0 ..< len - length needle + 1])"

text \<open>
  \<^verbatim>\<open>ntohs(*(uint16_t* )p)\<close>: the two bytes \<^verbatim>\<open>p[0]\<close>, \<^verbatim>\<open>p[1]\<close> in network byte order,
  as an \<^verbatim>\<open>int\<close>.
\<close>

definition ntohs_u16 :: "char \<Rightarrow> char \<Rightarrow> int" where
  "ntohs_u16 hi lo = 256 * of_char hi + of_char lo"

subsection \<open>The probes\<close>

text \<open>\<^verbatim>\<open>is_true\<close>, the probe of \<^verbatim>\<open>anyprot\<close>.\<close>

definition is_true :: "string \<Rightarrow> fault + int" where
  "is_true p = Inr 1"

definition is_ssh_protocol :: "string \<Rightarrow> fault + int" where
  "is_ssh_protocol p =
     (if int (length p) < 4 then Inr PROBE_AGAIN
      else (case strncmp_eq p 0 ''SSH-'' 4 of
              Inl e \<Rightarrow> Inl e
            | Inr eq \<Rightarrow> Inr (c_bool eq)))"

definition is_openvpn_protocol :: "string \<Rightarrow> fault + int" where
  "is_openvpn_protocol p =
     (if int (length p) < 2 then Inr PROBE_AGAIN
      else (case rd p 0 of
              Inl e \<Rightarrow> Inl e
            | Inr hi \<Rightarrow>
                (case rd p 1 of
                   Inl e \<Rightarrow> Inl e
                 | Inr lo \<Rightarrow>
                     (let packet_len = ntohs_u16 hi lo
                      in Inr (c_bool (packet_len = int (length p) - 2))))))"

definition is_tinc_protocol :: "string \<Rightarrow> fault + int" where
  "is_tinc_protocol p =
     (if int (length p) < 2 then Inr PROBE_AGAIN
      else (case strncmp_eq p 0 ''0 '' 2 of
              Inl e \<Rightarrow> Inl e
            | Inr eq \<Rightarrow> Inr (c_bool eq)))"

definition is_xmpp_protocol :: "string \<Rightarrow> fault + int" where
  "is_xmpp_protocol p =
     (case memmem p (length p) ''jabber'' of
        Inl e \<Rightarrow> Inl e
      | Inr found \<Rightarrow>
          if found then Inr PROBE_MATCH
          else if int (length p) < 50 then Inr PROBE_AGAIN
          else Inr PROBE_NEXT)"

text \<open>
  \<^verbatim>\<open>probe_http_method\<close>. The comparison \<^verbatim>\<open>len < strlen(opt)\<close> is made in \<^verbatim>\<open>size_t\<close>;
  \<^verbatim>\<open>len\<close> is never negative here, so it is the comparison of the two lengths.
\<close>

definition probe_http_method :: "string \<Rightarrow> string \<Rightarrow> fault + int" where
  "probe_http_method p opt =
     (if length p < length opt then Inr PROBE_AGAIN
      else (case strncmp_eq p 0 opt (length opt) of
              Inl e \<Rightarrow> Inl e
            | Inr eq \<Rightarrow> Inr (c_bool eq)))"

text \<open>
  The macro \<^verbatim>\<open>PROBE_HTTP_METHOD(opt)\<close>:
  \<^verbatim>\<open>if ((res = probe_http_method(p, len, opt)) != PROBE_NEXT) return res\<close>; the last
  argument is what the code after the macro computes.
\<close>

definition PROBE_HTTP_METHOD :: "string \<Rightarrow> string \<Rightarrow> fault + int \<Rightarrow> fault + int" where
  "PROBE_HTTP_METHOD p opt rest =
     (case probe_http_method p opt of
        Inl e \<Rightarrow> Inl e
      | Inr res \<Rightarrow> if res \<noteq> PROBE_NEXT then Inr res else rest)"

definition is_http_protocol :: "string \<Rightarrow> fault + int" where
  "is_http_protocol p =
     (case memmem p (length p) ''HTTP'' of
        Inl e \<Rightarrow> Inl e
      | Inr found \<Rightarrow>
          if found then Inr PROBE_MATCH
          else
            PROBE_HTTP_METHOD p ''OPTIONS'' (
            PROBE_HTTP_METHOD p ''GET'' (
            PROBE_HTTP_METHOD p ''HEAD'' (
            PROBE_HTTP_METHOD p ''POST'' (
            PROBE_HTTP_METHOD p ''PUT'' (
            PROBE_HTTP_METHOD p ''DELETE'' (
            PROBE_HTTP_METHOD p ''TRACE'' (
            PROBE_HTTP_METHOD p ''CONNECT'' (
            Inr PROBE_NEXT)))))))))"

text \<open>
  \<^verbatim>\<open>is_tls_protocol\<close> delegates to \<^verbatim>\<open>parse_tls_header(proto->data, p, len)\<close> of
  \<^verbatim>\<open>tls.c\<close>, which is a parameter here: a function of the entry's data and the slice
  that returns one of the constants of \<^verbatim>\<open>tls.h\<close>, or a fault of its own. The parser
  that the specification describes is defined further down.
\<close>

datatype tls_status = TLS_MATCH | TLS_NOMATCH | TLS_ELENGTH | TLS_OTHER int

definition is_tls_protocol ::
  "('d \<Rightarrow> string \<Rightarrow> fault + tls_status) \<Rightarrow> 'd \<Rightarrow> string \<Rightarrow> fault + int" where
  "is_tls_protocol parse_tls_header data p =
     (case parse_tls_header data p of
        Inl e \<Rightarrow> Inl e
      | Inr TLS_MATCH \<Rightarrow> Inr PROBE_MATCH
      | Inr TLS_NOMATCH \<Rightarrow> Inr PROBE_NEXT
      | Inr TLS_ELENGTH \<Rightarrow> Inr PROBE_AGAIN
      | Inr (TLS_OTHER _) \<Rightarrow> Inr PROBE_NEXT)"

text \<open>
  \<^verbatim>\<open>probe_adb_cnxn_message(&p[off])\<close>; the second \<^verbatim>\<open>memcmp\<close> is evaluated only when
  the first one found \<^verbatim>\<open>CNXN\<close> (\<^verbatim>\<open>&&\<close>).
\<close>

definition probe_adb_cnxn_message :: "string \<Rightarrow> nat \<Rightarrow> fault + int" where
  "probe_adb_cnxn_message p off =
     (case memcmp_eq p off ''CNXN'' of
        Inl e \<Rightarrow> Inl e
      | Inr cnxn \<Rightarrow>
          if \<not> cnxn then Inr 0
          else (case memcmp_eq p (off + 24) ''host:'' of
                  Inl e \<Rightarrow> Inl e
                | Inr host \<Rightarrow> Inr (c_bool host)))"

definition empty_message :: string where
  "empty_message =
     [CHR 0x00, CHR 0x00, CHR 0x00, CHR 0x00, CHR 0x00, CHR 0x00, CHR 0x00, CHR 0x00,
      CHR 0x00, CHR 0x00, CHR 0x00, CHR 0x00, CHR 0x00, CHR 0x00, CHR 0x00, CHR 0x00,
      CHR 0x00, CHR 0x00, CHR 0x00, CHR 0x00, CHR 0xFF, CHR 0xFF, CHR 0xFF, CHR 0xFF]"

definition min_data_packet_size :: nat where
  "min_data_packet_size = 30"

text \<open>
  \<^verbatim>\<open>is_adb_protocol\<close>. Both length checks compare \<^verbatim>\<open>len\<close> with an unsigned constant;
  \<^verbatim>\<open>len\<close> is never negative here.
\<close>

definition is_adb_protocol :: "string \<Rightarrow> fault + int" where
  "is_adb_protocol p =
     (if length p < min_data_packet_size then Inr PROBE_AGAIN
      else (case probe_adb_cnxn_message p 0 of
              Inl e \<Rightarrow> Inl e
            | Inr res \<Rightarrow>
                if res = PROBE_MATCH then Inr PROBE_MATCH
                else if length p < min_data_packet_size + length empty_message
                  then Inr PROBE_AGAIN
                else (case memcmp_eq p 0 empty_message of
                        Inl e \<Rightarrow> Inl e
                      | Inr eq \<Rightarrow>
                          if \<not> eq then Inr PROBE_NEXT
                          else probe_adb_cnxn_message p (length empty_message))))"

text \<open>
  \<^verbatim>\<open>is_socks5_protocol\<close>. The bytes are read as \<^verbatim>\<open>unsigned char\<close>, but the method count
  is stored in a plain \<^verbatim>\<open>char\<close>, whose signedness depends on the platform:
  \<open>char_is_signed\<close> says which one it is.
\<close>

definition to_plain_char :: "bool \<Rightarrow> char \<Rightarrow> int" where
  "to_plain_char char_is_signed c =
     (if char_is_signed \<and> (128::int) \<le> of_char c then of_char c - 256 else of_char c)"

function socks5_methods :: "string \<Rightarrow> int \<Rightarrow> int \<Rightarrow> fault + int" where
  "socks5_methods p m_count i =
     (if i < m_count then
        (case rd p (nat (2 + i)) of
           Inl e \<Rightarrow> Inl e
         | Inr c \<Rightarrow>
             if (9::int) < of_char c then Inr PROBE_NEXT
             else socks5_methods p m_count (i + 1))
      else Inr PROBE_MATCH)"
  by pat_completeness auto
termination
  by (relation "measure (\<lambda>(p, m_count, i). nat (m_count - i))") auto

declare socks5_methods.simps [simp del]

definition is_socks5_protocol :: "bool \<Rightarrow> string \<Rightarrow> fault + int" where
  "is_socks5_protocol char_is_signed p =
     (if int (length p) < 2 then Inr PROBE_AGAIN
      else (case rd p 0 of
              Inl e \<Rightarrow> Inl e
            | Inr version \<Rightarrow>
                if of_char version \<noteq> (5::int) then Inr PROBE_NEXT
                else (case rd p 1 of
                        Inl e \<Rightarrow> Inl e
                      | Inr c \<Rightarrow>
                          (let m_count = to_plain_char char_is_signed c in
                           if m_count < 1 \<or> m_count > 10 then Inr PROBE_NEXT
                           else if int (length p) < 2 + m_count then Inr PROBE_AGAIN
                           else socks5_methods p m_count 0))))"

text \<open>
  \<^verbatim>\<open>regex_probe\<close>. \<^verbatim>\<open>proto->data\<close> is a NULL-terminated array of compiled patterns,
  here a list; \<^verbatim>\<open>regexec\<close> belongs to the C library and is a parameter: given a
  pattern and the region \<^verbatim>\<open>[0, len)\<close> (\<^verbatim>\<open>REG_STARTEND\<close>), it says whether the pattern
  matches. Without \<^verbatim>\<open>ENABLE_REGEX\<close> the probe ends the process.
\<close>

fun regex_loop :: "('r \<Rightarrow> string \<Rightarrow> fault + bool) \<Rightarrow> 'r list \<Rightarrow> string \<Rightarrow> fault + int" where
  "regex_loop regexec [] p = Inr (c_bool False)"
| "regex_loop regexec (r # rs) p =
     (case regexec r p of
        Inl e \<Rightarrow> Inl e
      | Inr matched \<Rightarrow> if matched then Inr (c_bool True) else regex_loop regexec rs p)"

definition regex_probe ::
  "bool \<Rightarrow> ('r \<Rightarrow> string \<Rightarrow> fault + bool) \<Rightarrow> 'r list \<Rightarrow> string \<Rightarrow> fault + int" where
  "regex_probe ENABLE_REGEX regexec data p =
     (if ENABLE_REGEX then regex_loop regexec data p else Inl (FatalExit 5))"

subsection \<open>The TLS header parser\<close>

text \<open>
  Modelled from the spec: \<^verbatim>\<open>parse_tls_header\<close> belongs to \<^verbatim>\<open>tls.c\<close>, which is not
  among the sources; the definitions of this subsection follow section 4.B of the
  specification step by step. A step of the parser ends in a fault, in a final status,
  or with a value to go on with.
\<close>

datatype 'a parse = is_Fault: Fault fault | Done tls_status | Got 'a

text \<open>
  Modelled from the spec: one step after the other; a fault or a final status of the first
  step is the result.
\<close>

abbreviation and_then :: "'a parse \<Rightarrow> ('a \<Rightarrow> 'b parse) \<Rightarrow> 'b parse" where
  "and_then m k \<equiv> (case m of Fault e \<Rightarrow> Fault e | Done s \<Rightarrow> Done s | Got x \<Rightarrow> k x)"

text \<open>
  Modelled from the spec: a field of one byte at \<open>pos\<close>, in a structure that ends at
  \<open>lim\<close>. "At every step, if declared lengths would exceed remaining bytes, return
  AGAIN": a field that does not fit before \<open>lim\<close> ends the parse with \<open>TLS_ELENGTH\<close>,
  which the TLS probe turns into AGAIN.
\<close>

definition take_u8 :: "string \<Rightarrow> nat \<Rightarrow> nat \<Rightarrow> nat parse" where
  "take_u8 p pos lim =
     (if lim < pos + 1 then Done TLS_ELENGTH
      else (case rd p pos of Inl e \<Rightarrow> Fault e | Inr c \<Rightarrow> Got (of_char c)))"

text \<open>Modelled from the spec: a big-endian field of two bytes.\<close>

definition take_u16 :: "string \<Rightarrow> nat \<Rightarrow> nat \<Rightarrow> nat parse" where
  "take_u16 p pos lim =
     (if lim < pos + 2 then Done TLS_ELENGTH
      else (case rd p pos of
              Inl e \<Rightarrow> Fault e
            | Inr hi \<Rightarrow>
                (case rd p (pos + 1) of
                   Inl e \<Rightarrow> Fault e
                 | Inr lo \<Rightarrow> Got (256 * of_char hi + of_char lo))))"

text \<open>Modelled from the spec: a big-endian field of three bytes.\<close>

definition take_u24 :: "string \<Rightarrow> nat \<Rightarrow> nat \<Rightarrow> nat parse" where
  "take_u24 p pos lim =
     (if lim < pos + 3 then Done TLS_ELENGTH
      else (case rd p pos of
              Inl e \<Rightarrow> Fault e
            | Inr hi \<Rightarrow>
                (case rd p (pos + 1) of
                   Inl e \<Rightarrow> Fault e
                 | Inr mid \<Rightarrow>
                     (case rd p (pos + 2) of
                        Inl e \<Rightarrow> Fault e
                      | Inr lo \<Rightarrow> Got (65536 * of_char hi + 256 * of_char mid + of_char lo)))))"

text \<open>Modelled from the spec: the \<open>n\<close> bytes of a name, read one by one from \<open>pos\<close>.\<close>

fun read_bytes :: "string \<Rightarrow> nat \<Rightarrow> nat \<Rightarrow> fault + string" where
  "read_bytes p pos 0 = Inr []"
| "read_bytes p pos (Suc n) =
     (case rd p pos of
        Inl e \<Rightarrow> Inl e
      | Inr c \<Rightarrow>
          (case read_bytes p (Suc pos) n of
             Inl e \<Rightarrow> Inl e
           | Inr cs \<Rightarrow> Inr (c # cs)))"

text \<open>Modelled from the spec: a field of \<open>n\<close> bytes.\<close>

definition take_bytes :: "string \<Rightarrow> nat \<Rightarrow> nat \<Rightarrow> nat \<Rightarrow> string parse" where
  "take_bytes p pos n lim =
     (if lim < pos + n then Done TLS_ELENGTH
      else (case read_bytes p pos n of Inl e \<Rightarrow> Fault e | Inr cs \<Rightarrow> Got cs))"

text \<open>
  Modelled from the spec: the server name list, a sequence of entries "1 byte name-type +
  2 bytes name length + name"; the result is the first entry with name-type 0.
\<close>

function sni_entries :: "string \<Rightarrow> nat \<Rightarrow> nat \<Rightarrow> string option parse" where
  "sni_entries p pos lim =
     (if lim \<le> pos then Got None
      else
        and_then (take_u8 p pos lim) (\<lambda>name_type.
        and_then (take_u16 p (pos + 1) lim) (\<lambda>n.
        and_then (take_bytes p (pos + 3) n lim) (\<lambda>server_name.
          if name_type = 0 then Got (Some server_name)
          else sni_entries p (pos + 3 + n) lim))))"
  by pat_completeness auto
termination
  by (relation "measure (\<lambda>(p, pos, lim). lim - pos)") auto

declare sni_entries.simps [simp del]

text \<open>
  Modelled from the spec: the ALPN list, a sequence of "1 byte proto length + proto
  bytes"; the result is all the protocol names.
\<close>

function alpn_entries :: "string \<Rightarrow> nat \<Rightarrow> nat \<Rightarrow> string list parse" where
  "alpn_entries p pos lim =
     (if lim \<le> pos then Got []
      else
        and_then (take_u8 p pos lim) (\<lambda>n.
        and_then (take_bytes p (pos + 1) n lim) (\<lambda>proto_name.
        and_then (alpn_entries p (pos + 1 + n) lim) (\<lambda>names.
          Got (proto_name # names)))))"
  by pat_completeness auto
termination
  by (relation "measure (\<lambda>(p, pos, lim). lim - pos)") auto

declare alpn_entries.simps [simp del]

text \<open>
  Modelled from the spec: the payload of an SNI extension between \<open>pos\<close> and \<open>lim\<close>,
  "a 2-byte list length then a sequence of entries".
\<close>

definition sni_extension :: "string \<Rightarrow> nat \<Rightarrow> nat \<Rightarrow> string option parse" where
  "sni_extension p pos lim =
     and_then (take_u16 p pos lim) (\<lambda>list_len.
       if lim < pos + 2 + list_len then Done TLS_ELENGTH
       else sni_entries p (pos + 2) (pos + 2 + list_len))"

text \<open>Modelled from the spec: the payload of an ALPN extension, of the same shape.\<close>

definition alpn_extension :: "string \<Rightarrow> nat \<Rightarrow> nat \<Rightarrow> string list parse" where
  "alpn_extension p pos lim =
     and_then (take_u16 p pos lim) (\<lambda>list_len.
       if lim < pos + 2 + list_len then Done TLS_ELENGTH
       else alpn_entries p (pos + 2) (pos + 2 + list_len))"

text \<open>
  Modelled from the spec: the extension block, "each extension is 2 bytes type + 2 bytes
  length + payload". Type 0 is SNI, type 16 is ALPN. The server name is the first one
  found, the ALPN names are all collected.
\<close>

function extensions ::
  "string \<Rightarrow> nat \<Rightarrow> nat \<Rightarrow> string option \<Rightarrow> string list \<Rightarrow> (string option \<times> string list) parse"
  where
  "extensions p pos lim sni alpn =
     (if lim \<le> pos then Got (sni, alpn)
      else
        and_then (take_u16 p pos lim) (\<lambda>ext_type.
        and_then (take_u16 p (pos + 2) lim) (\<lambda>ext_len.
          if lim < pos + 4 + ext_len then Done TLS_ELENGTH
          else if ext_type = 0 then
            and_then (sni_extension p (pos + 4) (pos + 4 + ext_len)) (\<lambda>found.
              extensions p (pos + 4 + ext_len) lim (if sni = None then found else sni) alpn)
          else if ext_type = 16 then
            and_then (alpn_extension p (pos + 4) (pos + 4 + ext_len)) (\<lambda>names.
              extensions p (pos + 4 + ext_len) lim sni (alpn @ names))
          else extensions p (pos + 4 + ext_len) lim sni alpn)))"
  by pat_completeness auto
termination
  by (relation "measure (\<lambda>(p, pos, lim, sni, alpn). lim - pos)") auto

declare extensions.simps [simp del]

text \<open>
  Modelled from the spec: step 5, the handshake header and the body of the ClientHello
  within the record, which starts at \<open>pos\<close> and ends at \<open>lim\<close>: 1 byte type (must be
  1), 3 bytes handshake length, 2 bytes client version, 32 bytes random, 1 byte session-id
  length and the session id, 2 bytes cipher-suites length and the cipher suites, 1 byte
  compression-methods length and the compression methods, 2 bytes extensions length and
  the extension block.
\<close>

definition client_hello :: "string \<Rightarrow> nat \<Rightarrow> nat \<Rightarrow> (string option \<times> string list) parse" where
  "client_hello p pos lim =
     and_then (take_u8 p pos lim) (\<lambda>handshake_type.
       if handshake_type \<noteq> 1 then Done TLS_NOMATCH
       else
         and_then (take_u24 p (pos + 1) lim) (\<lambda>handshake_len.
           if lim < pos + 4 + handshake_len then Done TLS_ELENGTH
           else if lim < pos + 4 + 2 + 32 then Done TLS_ELENGTH
           else
             and_then (take_u8 p (pos + 38) lim) (\<lambda>session_id_len.
               if lim < pos + 39 + session_id_len then Done TLS_ELENGTH
               else
                 and_then (take_u16 p (pos + 39 + session_id_len) lim) (\<lambda>cipher_suites_len.
                   if lim < pos + 41 + session_id_len + cipher_suites_len then Done TLS_ELENGTH
                   else
                     and_then (take_u8 p (pos + 41 + session_id_len + cipher_suites_len) lim)
                       (\<lambda>compression_len.
                         if lim < pos + 42 + session_id_len + cipher_suites_len + compression_len
                           then Done TLS_ELENGTH
                         else
                           and_then
                             (take_u16 p
                                (pos + 42 + session_id_len + cipher_suites_len + compression_len)
                                lim)
                             (\<lambda>extensions_len.
                               if lim < pos + 44 + session_id_len + cipher_suites_len +
                                    compression_len + extensions_len
                                 then Done TLS_ELENGTH
                               else
                                 extensions p
                                   (pos + 44 + session_id_len + cipher_suites_len +
                                    compression_len)
                                   (pos + 44 + session_id_len + cipher_suites_len +
                                    compression_len + extensions_len)
                                   None []))))))"

text \<open>
  Modelled from the spec: steps 1 to 4 and 7. Fewer than 5 bytes: AGAIN. Byte 0 must be
  0x16 and the minor version of the record layer, byte 2, one of 0 to 4: else NEXT. The
  record of length \<open>R\<close> (bytes 3 and 4) must be complete: else AGAIN. The match policy
  of step 7, the SNI and ALPN allow-lists of the entry, is the parameter \<open>policy\<close>: it
  says whether the entry's data accept the server name and the ALPN names found. The
  specification leaves the cap on the record length to the implementation; there is none
  here.
\<close>

definition parse_tls_header ::
  "('d \<Rightarrow> string option \<Rightarrow> string list \<Rightarrow> bool) \<Rightarrow> 'd \<Rightarrow> string \<Rightarrow> fault + tls_status" where
  "parse_tls_header policy data p =
     (if length p < 5 then Inr TLS_ELENGTH
      else (case rd p 0 of
              Inl e \<Rightarrow> Inl e
            | Inr content_type \<Rightarrow>
                if content_type \<noteq> CHR 0x16 then Inr TLS_NOMATCH
                else (case rd p 1 of
                        Inl e \<Rightarrow> Inl e
                      | Inr major \<Rightarrow>
                          (case rd p 2 of
                             Inl e \<Rightarrow> Inl e
                           | Inr minor \<Rightarrow>
                               if (4::nat) < of_char minor then Inr TLS_NOMATCH
                               else (case take_u16 p 3 (length p) of
                                       Fault e \<Rightarrow> Inl e
                                     | Done s \<Rightarrow> Inr s
                                     | Got record_len \<Rightarrow>
                                         if length p < 5 + record_len then Inr TLS_ELENGTH
                                         else (case client_hello p 5 (5 + record_len) of
                                                 Fault e \<Rightarrow> Inl e
                                               | Done s \<Rightarrow> Inr s
                                               | Got (sni, alpn) \<Rightarrow>
                                                   if policy data sni alpn then Inr TLS_MATCH
                                                   else Inr TLS_NOMATCH))))))"

text \<open>
  The table \<^verbatim>\<open>builtins\<close> of \<^verbatim>\<open>probe.c\<close>, in its order. The TLS probe is bound to the
  parser and to the data of its entry.
\<close>

definition builtins ::
  "bool \<Rightarrow> ('d \<Rightarrow> string \<Rightarrow> fault + tls_status) \<Rightarrow> 'd \<Rightarrow> (string \<times> (string \<Rightarrow> fault + int)) list"
  where
  "builtins char_is_signed parse data =
     [(''ssh'', is_ssh_protocol),
      (''openvpn'', is_openvpn_protocol),
      (''tinc'', is_tinc_protocol),
      (''xmpp'', is_xmpp_protocol),
      (''http'', is_http_protocol),
      (''tls'', is_tls_protocol parse data),
      (''adb'', is_adb_protocol),
      (''socks5'', is_socks5_protocol char_is_signed),
      (''anyprot'', is_true)]"

subsection \<open>The configuration and the arbiter\<close>

text \<open>
  The fields of \<^verbatim>\<open>struct sslhcfg_protocols_item\<close> and of the global \<^verbatim>\<open>cfg\<close> that
  \<^verbatim>\<open>probe.c\<close> uses. A probe is a function of the slice; the entry's \<^verbatim>\<open>data\<close>, which
  the C probe receives through its third argument, is part of the function stored in the
  entry. \<open>None\<close> is the NULL pointer. \<^verbatim>\<open>cfg.protocols_len\<close> is the length of the list.
  A pointer \<^verbatim>\<open>&cfg.protocols[i]\<close> is the index \<open>i\<close>.
\<close>

record sslhcfg_protocols_item =
  name :: string
  probe :: "(string \<Rightarrow> fault + int) option"
  minlength_is_present :: bool
  minlength :: int

record sslhcfg_item =
  protocols :: "sslhcfg_protocols_item list"
  on_timeout :: string
  verbose :: int

definition protocols_len :: "sslhcfg_item \<Rightarrow> int" where
  "protocols_len cfg = int (length (protocols cfg))"

text \<open>\<^verbatim>\<open>&cfg.protocols[i]\<close>, checked against the bounds of the array.\<close>

definition protocols_ref :: "sslhcfg_item \<Rightarrow> int \<Rightarrow> fault + nat" where
  "protocols_ref cfg i =
     (if 0 \<le> i \<and> i < protocols_len cfg then Inr (nat i)
      else Inl (ProtocolIndexOutOfBounds i))"

text \<open>
  \<^verbatim>\<open>timeout_protocol\<close>: the loop over the entries, then the fallback
  \<^verbatim>\<open>&cfg.protocols[0]\<close>.
\<close>

function timeout_protocol_loop :: "sslhcfg_item \<Rightarrow> int \<Rightarrow> fault + nat" where
  "timeout_protocol_loop cfg i =
     (if 0 \<le> i \<and> i < protocols_len cfg then
        (if name (protocols cfg ! nat i) = on_timeout cfg then protocols_ref cfg i
         else timeout_protocol_loop cfg (i + 1))
      else protocols_ref cfg 0)"
  by pat_completeness auto
termination
  by (relation "measure (\<lambda>(cfg, i). nat (protocols_len cfg - i))") auto

declare timeout_protocol_loop.simps [simp del]

definition timeout_protocol :: "sslhcfg_item \<Rightarrow> fault + nat" where
  "timeout_protocol cfg = timeout_protocol_loop cfg 0"

text \<open>
  \<^verbatim>\<open>probe_buffer\<close>. The result is the returned integer together with \<^verbatim>\<open>*proto\<close>
  (\<open>None\<close> for NULL). \<open>probe_buffer_loop\<close> is the \<^verbatim>\<open>for\<close> loop with its variables
  \<^verbatim>\<open>i\<close> and \<^verbatim>\<open>again\<close>, \<open>probe_buffer_end\<close> the code after the loop, which the
  \<^verbatim>\<open>break\<close> jumps to. The diagnostic output on \<^verbatim>\<open>stderr\<close> is not part of the model.
\<close>

definition probe_buffer_end :: "sslhcfg_item \<Rightarrow> int \<Rightarrow> fault + int \<times> nat option" where
  "probe_buffer_end cfg again =
     (if again \<noteq> 0 then Inr (PROBE_AGAIN, None)
      else (case protocols_ref cfg (protocols_len cfg - 1) of
              Inl e \<Rightarrow> Inl e
            | Inr last_entry \<Rightarrow> Inr (PROBE_MATCH, Some last_entry)))"

function probe_buffer_loop ::
  "sslhcfg_item \<Rightarrow> string \<Rightarrow> int \<Rightarrow> int \<Rightarrow> fault + int \<times> nat option" where
  "probe_buffer_loop cfg buf i again =
     (if 0 \<le> i \<and> i < protocols_len cfg then
        (let p = protocols cfg ! nat i in
         case probe p of
           None \<Rightarrow> probe_buffer_loop cfg buf (i + 1) again
         | Some probe_fn \<Rightarrow>
             if i = protocols_len cfg - 1 \<and> name p = ''anyprot'' then probe_buffer_end cfg again
             else if minlength_is_present p \<and> int (length buf) < minlength p
               then probe_buffer_loop cfg buf (i + 1) (again + 1)
             else (case probe_fn buf of
                     Inl e \<Rightarrow> Inl e
                   | Inr res \<Rightarrow>
                       if res = PROBE_MATCH then Inr (PROBE_MATCH, Some (nat i))
                       else if res = PROBE_AGAIN
                         then probe_buffer_loop cfg buf (i + 1) (again + 1)
                       else probe_buffer_loop cfg buf (i + 1) again))
      else probe_buffer_end cfg again)"
  by pat_completeness auto
termination
  by (relation "measure (\<lambda>(cfg, buf, i, again). nat (protocols_len cfg - i))") auto

declare probe_buffer_loop.simps [simp del]

definition probe_buffer :: "sslhcfg_item \<Rightarrow> string \<Rightarrow> fault + int \<times> nat option" where
  "probe_buffer cfg buf = probe_buffer_loop cfg buf 0 0"

text \<open>
  The part of \<^verbatim>\<open>struct connection\<close> that \<^verbatim>\<open>probe_client_protocol\<close> touches: the
  deferred data of \<^verbatim>\<open>cnx->q[1]\<close> and \<^verbatim>\<open>cnx->proto\<close>.
\<close>

record connection =
  deferred_data :: string
  proto :: "nat option"

text \<open>
  Modelled from the spec: \<^verbatim>\<open>defer_write\<close> is not in \<^verbatim>\<open>probe.c\<close>. The bytes read are
  appended to the deferred buffer of the connection, which is never overwritten.
\<close>

definition defer_write :: "connection \<Rightarrow> string \<Rightarrow> connection" where
  "defer_write cnx bytes = cnx\<lparr>deferred_data := deferred_data cnx @ bytes\<rparr>"

text \<open>
  \<^verbatim>\<open>probe_client_protocol\<close>. The system call \<^verbatim>\<open>read\<close> is a parameter: \<open>n\<close> is what it
  returned (the number of bytes, 0 at the end of the stream, -1 on an error) and
  \<open>buffer\<close> the contents of the local buffer afterwards. The result is the returned
  integer and the connection as the function leaves it.
\<close>

definition probe_client_protocol ::
  "sslhcfg_item \<Rightarrow> connection \<Rightarrow> int \<Rightarrow> string \<Rightarrow> fault + int \<times> connection" where
  "probe_client_protocol cfg cnx n buffer =
     (if n > 0 then
        (let cnx' = defer_write cnx (take (nat n) buffer) in
         case probe_buffer cfg (deferred_data cnx') of
           Inl e \<Rightarrow> Inl e
         | Inr (res, selected) \<Rightarrow> Inr (res, cnx'\<lparr>proto := selected\<rparr>))
      else (case protocols_ref cfg (protocols_len cfg - 1) of
              Inl e \<Rightarrow> Inl e
            | Inr last_entry \<Rightarrow> Inr (PROBE_MATCH, cnx\<lparr>proto := Some last_entry\<rparr>)))"

subsection \<open>The arbiter as the specification describes it\<close>

text \<open>
  The two notions the specification of the arbiter uses, in its words. The chain is
  the list of the entries that are probed, in configured order: those that have a probe,
  except the last entry when its name is \<^verbatim>\<open>anyprot\<close>. The verdict of an entry is AGAIN
  when its \<^verbatim>\<open>min_length\<close> is set and the buffer is shorter (the probe is not invoked),
  and otherwise what its probe returns.
\<close>

definition chain_from :: "sslhcfg_item \<Rightarrow> nat \<Rightarrow> nat list" where
  "chain_from cfg k =
     filter
       (\<lambda>i. probe (protocols cfg ! i) \<noteq> None \<and>
            \<not> (Suc i = length (protocols cfg) \<and> name (protocols cfg ! i) = ''anyprot''))
       [k ..< length (protocols cfg)]"

definition chain :: "sslhcfg_item \<Rightarrow> nat list" where
  "chain cfg = chain_from cfg 0"

definition verdict :: "sslhcfg_item \<Rightarrow> string \<Rightarrow> nat \<Rightarrow> fault + int" where
  "verdict cfg buf i =
     (let p = protocols cfg ! i in
      if minlength_is_present p \<and> int (length buf) < minlength p then Inr PROBE_AGAIN
      else (case probe p of None \<Rightarrow> Inr PROBE_NEXT | Some probe_fn \<Rightarrow> probe_fn buf))"

subsection \<open>Letter case\<close>

text \<open>
  The eight method names that \<^verbatim>\<open>is_http_protocol\<close> tries, in its order, and what
  it means for two byte strings to differ only in letter case: they have the same
  length, they are not equal, and they are equal once the ASCII letters are lowered.
\<close>

definition http_methods :: "string list" where
  "http_methods =
     [''OPTIONS'', ''GET'', ''HEAD'', ''POST'', ''PUT'', ''DELETE'', ''TRACE'', ''CONNECT'']"

definition ascii_tolower :: "char \<Rightarrow> char" where
  "ascii_tolower c =
     (case map_of (zip ''ABCDEFGHIJKLMNOPQRSTUVWXYZ'' ''abcdefghijklmnopqrstuvwxyz'') c of
        None \<Rightarrow> c
      | Some l \<Rightarrow> l)"

definition differs_only_in_case :: "string \<Rightarrow> string \<Rightarrow> bool" where
  "differs_only_in_case s m =
     (length s = length m \<and> s \<noteq> m \<and> map ascii_tolower s = map ascii_tolower m)"

subsection \<open>A configuration to run the code on\<close>

text \<open>The protocols \<^verbatim>\<open>ssh\<close>, \<^verbatim>\<open>http\<close> and \<^verbatim>\<open>anyprot\<close>, bound to their built-in probes.\<close>

definition example_cfg :: sslhcfg_item where
  "example_cfg =
     \<lparr>protocols =
        [\<lparr>name = ''ssh'', probe = Some is_ssh_protocol,
          minlength_is_present = False, minlength = 0\<rparr>,
         \<lparr>name = ''http'', probe = Some is_http_protocol,
          minlength_is_present = False, minlength = 0\<rparr>,
         \<lparr>name = ''anyprot'', probe = Some is_true,
          minlength_is_present = False, minlength = 0\<rparr>],
      on_timeout = ''http'',
      verbose = 0\<rparr>"

definition empty_cfg :: sslhcfg_item where
  "empty_cfg = \<lparr>protocols = [], on_timeout = ''ssh'', verbose = 0\<rparr>"

text \<open>
  A ClientHello in one TLS record: protocol version 3.3, one cipher suite, the server
  name \<^verbatim>\<open>example.com\<close> and the ALPN name \<^verbatim>\<open>h2\<close>.
\<close>

definition example_client_hello :: string where
  "example_client_hello =
     [CHR 0x16, CHR 0x03, CHR 0x01, CHR 0x00, CHR 0x4C, CHR 0x01, CHR 0x00, CHR 0x00,
      CHR 0x48, CHR 0x03, CHR 0x03, CHR 0x11, CHR 0x11, CHR 0x11, CHR 0x11, CHR 0x11,
      CHR 0x11, CHR 0x11, CHR 0x11, CHR 0x11, CHR 0x11, CHR 0x11, CHR 0x11, CHR 0x11,
      CHR 0x11, CHR 0x11, CHR 0x11, CHR 0x11, CHR 0x11, CHR 0x11, CHR 0x11, CHR 0x11,
      CHR 0x11, CHR 0x11, CHR 0x11, CHR 0x11, CHR 0x11, CHR 0x11, CHR 0x11, CHR 0x11,
      CHR 0x11, CHR 0x11, CHR 0x11, CHR 0x00, CHR 0x00, CHR 0x02, CHR 0x13, CHR 0x01,
      CHR 0x01, CHR 0x00, CHR 0x00, CHR 0x1D, CHR 0x00, CHR 0x00, CHR 0x00, CHR 0x10,
      CHR 0x00, CHR 0x0E, CHR 0x00, CHR 0x00, CHR 0x0B, CHR 0x65, CHR 0x78, CHR 0x61,
      CHR 0x6D, CHR 0x70, CHR 0x6C, CHR 0x65, CHR 0x2E, CHR 0x63, CHR 0x6F, CHR 0x6D,
      CHR 0x00, CHR 0x10, CHR 0x00, CHR 0x05, CHR 0x00, CHR 0x03, CHR 0x02, CHR 0x68,
      CHR 0x32]"

section \<open>Properties\<close>

subsection \<open>The library functions on readable regions\<close>

lemma probe_results_distinct:
  "PROBE_NEXT \<noteq> PROBE_MATCH" "PROBE_MATCH \<noteq> PROBE_NEXT"
  "PROBE_NEXT \<noteq> PROBE_AGAIN" "PROBE_AGAIN \<noteq> PROBE_NEXT"
  "PROBE_MATCH \<noteq> PROBE_AGAIN" "PROBE_AGAIN \<noteq> PROBE_MATCH"
  by (simp_all add: PROBE_NEXT_def PROBE_MATCH_def PROBE_AGAIN_def)

lemma rd_in_range: "i < length p \<Longrightarrow> rd p i = Inr (p ! i)"
  by (simp add: rd_def)

lemma memcmp_eq_in_range:
  "off + length s \<le> length p \<Longrightarrow> memcmp_eq p off s = Inr (take (length s) (drop off p) = s)"
proof (induction s arbitrary: off)
  case Nil
  then show ?case by simp
next
  case (Cons x xs)
  then have lt: "off < length p" and rest: "Suc off + length xs \<le> length p"
    by simp_all
  have shape: "drop off p = p ! off # drop (Suc off) p"
    using lt by (simp add: Cons_nth_drop_Suc)
  show ?case
    using Cons.IH [OF rest] lt by (simp add: rd_def shape)
qed

lemma strncmp_eq_in_range:
  "CHR 0x00 \<notin> set s \<Longrightarrow> off + length s \<le> length p \<Longrightarrow>
   strncmp_eq p off s (length s) = Inr (take (length s) (drop off p) = s)"
proof (induction s arbitrary: off)
  case Nil
  then show ?case by simp
next
  case (Cons x xs)
  then have lt: "off < length p" and rest: "Suc off + length xs \<le> length p"
    and nz: "x \<noteq> CHR 0x00" "CHR 0x00 \<notin> set xs"
    by auto
  have shape: "drop off p = p ! off # drop (Suc off) p"
    using lt by (simp add: Cons_nth_drop_Suc)
  show ?case
    using Cons.IH [OF nz(2) rest] lt nz(1) by (auto simp add: rd_def shape)
qed

lemma strncmp_eq_prefix:
  "CHR 0x00 \<notin> set s \<Longrightarrow> length s \<le> length p \<Longrightarrow>
   strncmp_eq p 0 s (length s) = Inr (prefix s p)"
  using strncmp_eq_in_range [of s 0 p]
  by (auto simp: prefix_def) (metis append_take_drop_id)+

lemma memmem_scan_in_range:
  "\<forall>i \<in> set is. i + length needle \<le> length p \<Longrightarrow>
   memmem_scan p needle is = Inr (\<exists>i \<in> set is. take (length needle) (drop i p) = needle)"
  by (induction "is") (auto simp: memcmp_eq_in_range)

lemma sublist_iff_offset:
  "sublist xs ys \<longleftrightarrow>
   (length xs \<le> length ys \<and> (\<exists>i \<le> length ys - length xs. take (length xs) (drop i ys) = xs))"
proof
  assume "sublist xs ys"
  then obtain ps ss where ys: "ys = ps @ xs @ ss"
    by (auto simp: sublist_def)
  have "take (length xs) (drop (length ps) ys) = xs" "length ps \<le> length ys - length xs"
    "length xs \<le> length ys"
    by (simp_all add: ys)
  then show "length xs \<le> length ys \<and> (\<exists>i \<le> length ys - length xs. take (length xs) (drop i ys) = xs)"
    by blast
next
  assume r: "length xs \<le> length ys \<and> (\<exists>i \<le> length ys - length xs. take (length xs) (drop i ys) = xs)"
  then obtain i where i: "i \<le> length ys - length xs" "take (length xs) (drop i ys) = xs"
    by blast
  have "sublist (take (length xs) (drop i ys)) (drop i ys)" "sublist (drop i ys) ys"
    by (rule sublist_take, rule sublist_drop)
  then have "sublist (take (length xs) (drop i ys)) ys"
    by (rule sublist_order.order_trans)
  then show "sublist xs ys"
    using i(2) by simp
qed

lemma memmem_sublist: "memmem p (length p) needle = Inr (sublist needle p)"
proof (cases "length p < length needle")
  case True
  then show ?thesis
    using sublist_length_le [of needle p] by (auto simp: memmem_def)
next
  case False
  let ?offs = "[0 ..< length p - length needle + 1]"
  have "\<forall>i \<in> set ?offs. i + length needle \<le> length p"
    using False by auto
  then have "memmem_scan p needle ?offs =
      Inr (\<exists>i \<in> set ?offs. take (length needle) (drop i p) = needle)"
    by (rule memmem_scan_in_range)
  moreover have "set ?offs = {i. i \<le> length p - length needle}"
    by auto
  then have "(\<exists>i \<in> set ?offs. take (length needle) (drop i p) = needle) = sublist needle p"
    using False unfolding sublist_iff_offset [of needle p]
    by (simp only: mem_Collect_eq Bex_def) auto
  ultimately show ?thesis
    using False by (simp add: memmem_def)
qed

subsection \<open>OpenVPN\<close>

lemma is_openvpn_protocol_eq:
  "is_openvpn_protocol b =
     (if length b < 2 then Inr PROBE_AGAIN
      else if 256 * of_char (b ! 0) + of_char (b ! 1) = int (length b) - 2 then Inr PROBE_MATCH
      else Inr PROBE_NEXT)"
  by (simp add: is_openvpn_protocol_def rd_def ntohs_u16_def c_bool_def
      PROBE_MATCH_def PROBE_NEXT_def)

text \<open>
  C4. The OpenVPN probe returns AGAIN on fewer than two bytes; otherwise, with \<open>L\<close> the
  first two bytes read as a big-endian unsigned 16-bit integer, it returns MATCH when
  \<open>L\<close> equals the length of the slice minus two, and NEXT when it does not.
\<close>

theorem openvpn_contract:
  "is_openvpn_protocol b =
     (if length b < 2 then Inr PROBE_AGAIN
      else if 256 * of_char (b ! 0) + of_char (b ! 1) = int (length b) - 2 then Inr PROBE_MATCH
      else Inr PROBE_NEXT)"
  by (rule is_openvpn_protocol_eq)

subsection \<open>SOCKS5\<close>

lemma socks5_methods_eq:
  "0 \<le> i \<Longrightarrow> 2 + m \<le> int (length p) \<Longrightarrow>
   socks5_methods p m i =
     Inr (if \<exists>j. i \<le> j \<and> j < m \<and> (9::int) < of_char (p ! nat (2 + j)) then PROBE_NEXT
          else PROBE_MATCH)"
proof (induction p m i rule: socks5_methods.induct)
  case (1 p m_count i)
  show ?case
  proof (cases "i < m_count")
    case False
    then show ?thesis
      by (subst socks5_methods.simps) auto
  next
    case True
    then have readable: "nat (2 + i) < length p"
      using "1.prems" by linarith
    show ?thesis
    proof (cases "(9::int) < of_char (p ! nat (2 + i))")
      case big: True
      then have "\<exists>j. i \<le> j \<and> j < m_count \<and> (9::int) < of_char (p ! nat (2 + j))"
        using True by blast
      then show ?thesis
        using True big readable by (subst socks5_methods.simps) (simp add: rd_def)
    next
      case small: False
      have step: "socks5_methods p m_count i = socks5_methods p m_count (i + 1)"
        using True small readable by (subst socks5_methods.simps) (simp add: rd_def)
      have ih: "socks5_methods p m_count (i + 1) =
          Inr (if \<exists>j. i + 1 \<le> j \<and> j < m_count \<and> (9::int) < of_char (p ! nat (2 + j))
               then PROBE_NEXT else PROBE_MATCH)"
        using "1.IH" [OF True rd_in_range [OF readable] small] "1.prems" by simp
      have "(\<exists>j. i + 1 \<le> j \<and> j < m_count \<and> (9::int) < of_char (p ! nat (2 + j))) =
          (\<exists>j. i \<le> j \<and> j < m_count \<and> (9::int) < of_char (p ! nat (2 + j)))"
      proof
        assume "\<exists>j. i + 1 \<le> j \<and> j < m_count \<and> (9::int) < of_char (p ! nat (2 + j))"
        then show "\<exists>j. i \<le> j \<and> j < m_count \<and> (9::int) < of_char (p ! nat (2 + j))"
          by (meson add_increasing2 zero_le_one order_trans le_add_same_cancel1 linorder_le_cases)
      next
        assume "\<exists>j. i \<le> j \<and> j < m_count \<and> (9::int) < of_char (p ! nat (2 + j))"
        then obtain j where j: "i \<le> j" "j < m_count" "(9::int) < of_char (p ! nat (2 + j))"
          by blast
        then have "j \<noteq> i"
          using small by auto
        then have "i + 1 \<le> j"
          using j(1) by simp
        then show "\<exists>j. i + 1 \<le> j \<and> j < m_count \<and> (9::int) < of_char (p ! nat (2 + j))"
          using j by blast
      qed
      then show ?thesis
        using step ih by simp
    qed
  qed
qed

lemma of_char_nat_lt: "(of_char c :: nat) < 256"
  using of_char_mod_256 [of c, where ?'a = nat] by (metis mod_less_divisor zero_less_numeral)

lemma socks5_methods_nat:
  assumes "2 + n \<le> length b"
  shows "socks5_methods b (int n) 0 =
      Inr (if \<exists>i < n. (9::nat) < of_char (b ! (2 + i)) then PROBE_NEXT else PROBE_MATCH)"
proof -
  have "(\<exists>j. 0 \<le> j \<and> j < int n \<and> (9::int) < of_char (b ! nat (2 + j))) =
      (\<exists>i < n. (9::nat) < of_char (b ! (2 + i)))"
  proof
    assume "\<exists>j. 0 \<le> j \<and> j < int n \<and> (9::int) < of_char (b ! nat (2 + j))"
    then obtain j where j: "0 \<le> j" "j < int n" "(9::int) < of_char (b ! nat (2 + j))"
      by blast
    have "nat (2 + j) = 2 + nat j"
      using j(1) by simp
    moreover have "(of_char (b ! nat (2 + j)) :: int) = int (of_char (b ! nat (2 + j)))"
      by (simp add: of_nat_of_char)
    ultimately have "nat j < n" "(9::nat) < of_char (b ! (2 + nat j))"
      using j by simp_all
    then show "\<exists>i < n. (9::nat) < of_char (b ! (2 + i))"
      by blast
  next
    assume "\<exists>i < n. (9::nat) < of_char (b ! (2 + i))"
    then obtain i where i: "i < n" "(9::nat) < of_char (b ! (2 + i))"
      by blast
    have "nat (2 + int i) = 2 + i"
      by simp
    moreover have "(of_char (b ! (2 + i)) :: int) = int (of_char (b ! (2 + i)))"
      by (simp add: of_nat_of_char)
    ultimately have "0 \<le> int i \<and> int i < int n \<and> (9::int) < of_char (b ! nat (2 + int i))"
      using i by simp
    then show "\<exists>j. 0 \<le> j \<and> j < int n \<and> (9::int) < of_char (b ! nat (2 + j))"
      by blast
  qed
  moreover have "socks5_methods b (int n) 0 =
      Inr (if \<exists>j. 0 \<le> j \<and> j < int n \<and> (9::int) < of_char (b ! nat (2 + j))
           then PROBE_NEXT else PROBE_MATCH)"
    by (rule socks5_methods_eq) (use assms in simp_all)
  ultimately show ?thesis
    by simp
qed

lemma is_socks5_protocol_eq:
  "is_socks5_protocol char_is_signed b =
     (if length b < 2 then Inr PROBE_AGAIN
      else if of_char (b ! 0) \<noteq> (5::nat) then Inr PROBE_NEXT
      else if \<not> (1 \<le> (of_char (b ! 1) :: nat) \<and> (of_char (b ! 1) :: nat) \<le> 10)
        then Inr PROBE_NEXT
      else if length b < 2 + of_char (b ! 1) then Inr PROBE_AGAIN
      else if \<exists>i < of_char (b ! 1). (9::nat) < of_char (b ! (2 + i)) then Inr PROBE_NEXT
      else Inr PROBE_MATCH)"
proof (cases "length b < 2")
  case True
  then show ?thesis
    by (simp add: is_socks5_protocol_def)
next
  case False
  define c0 where "c0 = b ! 0"
  define c1 where "c1 = b ! 1"
  define n :: nat where "n = of_char c1"
  have code: "is_socks5_protocol char_is_signed b =
      (if of_char c0 \<noteq> (5::int) then Inr PROBE_NEXT
       else if to_plain_char char_is_signed c1 < 1 \<or> to_plain_char char_is_signed c1 > 10
         then Inr PROBE_NEXT
       else if int (length b) < 2 + to_plain_char char_is_signed c1 then Inr PROBE_AGAIN
       else socks5_methods b (to_plain_char char_is_signed c1) 0)"
  proof -
    have "0 < length b" "1 < length b"
      using False by linarith+
    then have "rd b 0 = Inr c0" "rd b 1 = Inr c1"
      unfolding c0_def c1_def by (simp_all only: rd_def if_True)
    then show ?thesis
      using False unfolding is_socks5_protocol_def by (simp add: Let_def)
  qed
  have n_int: "(of_char c1 :: int) = int n"
    by (simp add: n_def of_nat_of_char)
  have v_int: "(of_char c0 :: int) = int (of_char c0)"
    by (simp add: of_nat_of_char)
  have n_lt: "n < 256"
    unfolding n_def by (rule of_char_nat_lt)
  have plain_range:
    "(to_plain_char char_is_signed c1 < 1 \<or> to_plain_char char_is_signed c1 > 10) =
     (\<not> (1 \<le> n \<and> n \<le> 10))"
    using n_lt by (auto simp: to_plain_char_def n_int)
  have plain_val: "to_plain_char char_is_signed c1 = int n" if "n \<le> 10"
    using that by (simp add: to_plain_char_def n_int)
  have "is_socks5_protocol char_is_signed b =
      (if of_char c0 \<noteq> (5::nat) then Inr PROBE_NEXT
       else if \<not> (1 \<le> n \<and> n \<le> 10) then Inr PROBE_NEXT
       else if length b < 2 + n then Inr PROBE_AGAIN
       else if \<exists>i < n. (9::nat) < of_char (b ! (2 + i)) then Inr PROBE_NEXT
       else Inr PROBE_MATCH)"
  proof (cases "1 \<le> n \<and> n \<le> 10")
    case m: False
    then show ?thesis
      unfolding code plain_range by (simp add: v_int)
  next
    case m: True
    then have val: "to_plain_char char_is_signed c1 = int n"
      using plain_val by simp
    show ?thesis
    proof (cases "length b < 2 + n")
      case True
      then show ?thesis
        unfolding code plain_range val using m by (simp add: v_int)
    next
      case long: False
      then have "2 + n \<le> length b"
        by simp
      then have loop: "socks5_methods b (int n) 0 =
          Inr (if \<exists>i < n. (9::nat) < of_char (b ! (2 + i)) then PROBE_NEXT else PROBE_MATCH)"
        by (rule socks5_methods_nat)
      show ?thesis
        unfolding code plain_range val loop using m long by (auto simp: v_int)
    qed
  qed
  then show ?thesis
    using False unfolding n_def c0_def c1_def by simp
qed

text \<open>
  C5. The SOCKS5 probe returns AGAIN on fewer than two bytes; NEXT when byte 0 is not 5;
  NEXT when byte 1, the method count \<open>m\<close>, is not in \<open>1..10\<close>; AGAIN when the slice has
  fewer than \<open>2 + m\<close> bytes; NEXT when one of the \<open>m\<close> method bytes exceeds 9; and
  MATCH otherwise. This holds whether the platform's \<^verbatim>\<open>char\<close> is signed or not.
\<close>

theorem socks5_contract:
  "is_socks5_protocol char_is_signed b =
     (if length b < 2 then Inr PROBE_AGAIN
      else if of_char (b ! 0) \<noteq> (5::nat) then Inr PROBE_NEXT
      else if \<not> (1 \<le> (of_char (b ! 1) :: nat) \<and> (of_char (b ! 1) :: nat) \<le> 10)
        then Inr PROBE_NEXT
      else if length b < 2 + of_char (b ! 1) then Inr PROBE_AGAIN
      else if \<exists>i < of_char (b ! 1). (9::nat) < of_char (b ! (2 + i)) then Inr PROBE_NEXT
      else Inr PROBE_MATCH)"
  by (rule is_socks5_protocol_eq)

subsection \<open>ADB\<close>

lemma memcmp_eq_CNXN:
  assumes "off + 4 \<le> length p"
  shows "memcmp_eq p off ''CNXN'' = Inr (take 4 (drop off p) = ''CNXN'')"
proof -
  have l: "length ''CNXN'' = 4"
    by simp
  have "memcmp_eq p off ''CNXN'' = Inr (take (length ''CNXN'') (drop off p) = ''CNXN'')"
    by (rule memcmp_eq_in_range) (use assms in simp)
  then show ?thesis
    by (simp only: l)
qed

lemma memcmp_eq_host:
  assumes "off + 5 \<le> length p"
  shows "memcmp_eq p off ''host:'' = Inr (take 5 (drop off p) = ''host:'')"
proof -
  have l: "length ''host:'' = 5"
    by simp
  have "memcmp_eq p off ''host:'' = Inr (take (length ''host:'') (drop off p) = ''host:'')"
    by (rule memcmp_eq_in_range) (use assms in simp)
  then show ?thesis
    by (simp only: l)
qed

lemma probe_adb_cnxn_message_eq:
  assumes "off + 29 \<le> length p"
  shows "probe_adb_cnxn_message p off =
     Inr (c_bool (take 4 (drop off p) = ''CNXN'' \<and> take 5 (drop (off + 24) p) = ''host:''))"
proof -
  have "off + 4 \<le> length p" "off + 24 + 5 \<le> length p"
    using assms by simp_all
  then show ?thesis
    unfolding probe_adb_cnxn_message_def
    by (simp only: memcmp_eq_CNXN memcmp_eq_host) (simp add: c_bool_def)
qed

lemma is_adb_protocol_eq:
  "is_adb_protocol b =
     (if length b < 30 then Inr PROBE_AGAIN
      else if take 4 b = ''CNXN'' \<and> take 5 (drop 24 b) = ''host:'' then Inr PROBE_MATCH
      else if length b < 54 then Inr PROBE_AGAIN
      else if take 24 b \<noteq> replicate 20 (CHR 0x00) @ replicate 4 (CHR 0xFF) then Inr PROBE_NEXT
      else if take 4 (drop 24 b) = ''CNXN'' \<and> take 5 (drop 48 b) = ''host:'' then Inr PROBE_MATCH
      else Inr PROBE_NEXT)"
proof -
  have len: "length empty_message = 24"
    by (simp add: empty_message_def)
  have msg: "empty_message = replicate 20 (CHR 0x00) @ replicate 4 (CHR 0xFF)"
    by (simp add: empty_message_def numeral_eq_Suc)
  have first: "probe_adb_cnxn_message b 0 =
      Inr (c_bool (take 4 b = ''CNXN'' \<and> take 5 (drop 24 b) = ''host:''))"
    if "30 \<le> length b"
    using probe_adb_cnxn_message_eq [of 0 b] that by simp
  have second: "probe_adb_cnxn_message b 24 =
      Inr (c_bool (take 4 (drop 24 b) = ''CNXN'' \<and> take 5 (drop 48 b) = ''host:''))"
    if "54 \<le> length b"
    using probe_adb_cnxn_message_eq [of 24 b] that by simp
  have cmp: "memcmp_eq b 0 empty_message = Inr (take 24 b = empty_message)"
    if "54 \<le> length b"
    using memcmp_eq_in_range [of 0 empty_message b] that by (simp add: len)
  show ?thesis
    by (simp add: is_adb_protocol_def min_data_packet_size_def len first second cmp
        c_bool_def PROBE_MATCH_def PROBE_NEXT_def PROBE_AGAIN_def not_less flip: msg)
qed

text \<open>
  C6. The ADB probe returns AGAIN on fewer than 30 bytes; MATCH when the slice begins with
  \<^verbatim>\<open>CNXN\<close> and its bytes 24 to 28 are \<^verbatim>\<open>host:\<close>; otherwise AGAIN on fewer than 54
  bytes; otherwise NEXT when the first 24 bytes are not 20 zero bytes followed by four
  0xFF bytes; otherwise MATCH when the \<^verbatim>\<open>CNXN\<close>/\<^verbatim>\<open>host:\<close> check holds at offset 24,
  and NEXT when it does not.
\<close>

theorem adb_contract:
  "is_adb_protocol b =
     (if length b < 30 then Inr PROBE_AGAIN
      else if take 4 b = ''CNXN'' \<and> take 5 (drop 24 b) = ''host:'' then Inr PROBE_MATCH
      else if length b < 54 then Inr PROBE_AGAIN
      else if take 24 b \<noteq> replicate 20 (CHR 0x00) @ replicate 4 (CHR 0xFF) then Inr PROBE_NEXT
      else if take 4 (drop 24 b) = ''CNXN'' \<and> take 5 (drop 48 b) = ''host:'' then Inr PROBE_MATCH
      else Inr PROBE_NEXT)"
  by (rule is_adb_protocol_eq)

subsection \<open>HTTP\<close>

lemma probe_http_method_eq:
  "CHR 0x00 \<notin> set opt \<Longrightarrow>
   probe_http_method p opt =
     Inr (if length p < length opt then PROBE_AGAIN
          else if prefix opt p then PROBE_MATCH else PROBE_NEXT)"
  by (simp add: probe_http_method_def strncmp_eq_prefix c_bool_def PROBE_MATCH_def PROBE_NEXT_def)

lemma PROBE_HTTP_METHOD_eq:
  "CHR 0x00 \<notin> set opt \<Longrightarrow>
   PROBE_HTTP_METHOD p opt rest =
     (if length p < length opt then Inr PROBE_AGAIN
      else if prefix opt p then Inr PROBE_MATCH else rest)"
  by (simp add: PROBE_HTTP_METHOD_def probe_http_method_eq PROBE_MATCH_def PROBE_NEXT_def
      PROBE_AGAIN_def)

lemma is_http_protocol_eq:
  "is_http_protocol b =
     (if sublist ''HTTP'' b then Inr PROBE_MATCH
      else (case find (\<lambda>m. length b < length m \<or> prefix m b)
                   [''OPTIONS'', ''GET'', ''HEAD'', ''POST'', ''PUT'', ''DELETE'', ''TRACE'',
                    ''CONNECT''] of
              None \<Rightarrow> Inr PROBE_NEXT
            | Some m \<Rightarrow> if length b < length m then Inr PROBE_AGAIN else Inr PROBE_MATCH))"
  by (simp add: is_http_protocol_def memmem_sublist PROBE_HTTP_METHOD_eq)

text \<open>
  C7. The HTTP probe returns MATCH when \<^verbatim>\<open>HTTP\<close> occurs anywhere in the slice.
  Otherwise it goes through OPTIONS, GET, HEAD, POST, PUT, DELETE, TRACE, CONNECT in this
  order up to the first method that is longer than the slice (the result is AGAIN) or
  that the slice starts with (the result is MATCH); when there is no such method the
  result is NEXT.
\<close>

theorem http_contract:
  "is_http_protocol b =
     (if sublist ''HTTP'' b then Inr PROBE_MATCH
      else (case find (\<lambda>m. length b < length m \<or> prefix m b)
                   [''OPTIONS'', ''GET'', ''HEAD'', ''POST'', ''PUT'', ''DELETE'', ''TRACE'',
                    ''CONNECT''] of
              None \<Rightarrow> Inr PROBE_NEXT
            | Some m \<Rightarrow> if length b < length m then Inr PROBE_AGAIN else Inr PROBE_MATCH))"
  by (rule is_http_protocol_eq)

subsection \<open>SSH, tinc and XMPP\<close>

lemma is_ssh_protocol_eq:
  "is_ssh_protocol b =
     Inr (if length b < 4 then PROBE_AGAIN
          else if prefix ''SSH-'' b then PROBE_MATCH else PROBE_NEXT)"
proof (cases "length b < 4")
  case True
  then show ?thesis
    by (simp add: is_ssh_protocol_def)
next
  case False
  have "strncmp_eq b 0 ''SSH-'' (length ''SSH-'') = Inr (prefix ''SSH-'' b)"
    by (rule strncmp_eq_prefix) (use False in simp_all)
  moreover have "length ''SSH-'' = 4"
    by simp
  ultimately have "strncmp_eq b 0 ''SSH-'' 4 = Inr (prefix ''SSH-'' b)"
    by (simp only:)
  then show ?thesis
    using False by (simp add: is_ssh_protocol_def c_bool_def PROBE_MATCH_def PROBE_NEXT_def)
qed

lemma is_tinc_protocol_eq:
  "is_tinc_protocol b =
     Inr (if length b < 2 then PROBE_AGAIN
          else if prefix ''0 '' b then PROBE_MATCH else PROBE_NEXT)"
proof (cases "length b < 2")
  case True
  then show ?thesis
    by (simp add: is_tinc_protocol_def)
next
  case False
  have "strncmp_eq b 0 ''0 '' (length ''0 '') = Inr (prefix ''0 '' b)"
    by (rule strncmp_eq_prefix) (use False in simp_all)
  moreover have "length ''0 '' = 2"
    by simp
  ultimately have "strncmp_eq b 0 ''0 '' 2 = Inr (prefix ''0 '' b)"
    by (simp only:)
  then show ?thesis
    using False by (simp add: is_tinc_protocol_def c_bool_def PROBE_MATCH_def PROBE_NEXT_def)
qed

lemma is_xmpp_protocol_eq:
  "is_xmpp_protocol b =
     Inr (if sublist ''jabber'' b then PROBE_MATCH
          else if length b < 50 then PROBE_AGAIN else PROBE_NEXT)"
  by (simp add: is_xmpp_protocol_def memmem_sublist)

subsection \<open>Acceptance under extension of the buffer\<close>












subsection \<open>Letter case of HTTP methods\<close>

lemma http_methods_lowercase_facts:
  "\<forall>x \<in> set http_methods. \<not> sublist (map ascii_tolower ''HTTP'') (map ascii_tolower x)"
  "\<forall>x \<in> set http_methods. \<forall>y \<in> set http_methods.
      x \<noteq> y \<longrightarrow> length y = 7 \<longrightarrow> \<not> prefix (map ascii_tolower x) (map ascii_tolower y)"
  "\<forall>x \<in> set http_methods.
      length x \<le> 7 \<and> (length x = 7) = (x = ''OPTIONS'' \<or> x = ''CONNECT'')"
  by (simp_all add: ascii_tolower_def http_methods_def sublist_code)

text \<open>
  C3, as amended. A slice that has the length of a method name and differs from it only
  in letter case is never taken for HTTP. The probe returns NEXT when the method is
  OPTIONS or CONNECT, the two names of seven bytes; for the six shorter names it returns
  AGAIN, because the slice is shorter than OPTIONS, the first method that is tried.
\<close>

theorem http_wrong_case_never_matches:
  assumes "m \<in> set http_methods" and "differs_only_in_case s m"
  shows "is_http_protocol s =
     Inr (if m = ''OPTIONS'' \<or> m = ''CONNECT'' then PROBE_NEXT else PROBE_AGAIN)"
proof -
  have len: "length s = length m" and ne: "s \<noteq> m"
    and low: "map ascii_tolower s = map ascii_tolower m"
    using assms(2) by (simp_all add: differs_only_in_case_def)
  note no_http = http_methods_lowercase_facts(1) [rule_format]
  note no_other = http_methods_lowercase_facts(2) [rule_format]
  note lens = http_methods_lowercase_facts(3) [rule_format, OF assms(1)]
  have nosub: "\<not> sublist ''HTTP'' s"
  proof
    assume "sublist ''HTTP'' s"
    then have "sublist (map ascii_tolower ''HTTP'') (map ascii_tolower s)"
      by (rule map_mono_sublist)
    then have "sublist (map ascii_tolower ''HTTP'') (map ascii_tolower m)"
      by (simp only: low)
    then show False
      using no_http [OF assms(1)] by (rule notE [rotated])
  qed
  have code: "is_http_protocol s =
      (case find (\<lambda>x. length s < length x \<or> prefix x s) http_methods of
         None \<Rightarrow> Inr PROBE_NEXT
       | Some x \<Rightarrow> if length s < length x then Inr PROBE_AGAIN else Inr PROBE_MATCH)"
    unfolding is_http_protocol_eq http_methods_def using nosub by (simp only: if_False)
  show ?thesis
  proof (cases "m = ''OPTIONS'' \<or> m = ''CONNECT''")
    case False
    then have "length m \<noteq> 7"
      using lens by (simp only: simp_thms)
    then have short: "length s < 7"
      using lens len by linarith
    have "find (\<lambda>x. length s < length x \<or> prefix x s) http_methods = Some ''OPTIONS''"
      unfolding http_methods_def using short by simp
    then show ?thesis
      unfolding code using False short by simp
  next
    case True
    then have seven: "length m = 7"
      using lens by (simp only: simp_thms)
    have "\<not> (length s < length x \<or> prefix x s)" if x: "x \<in> set http_methods" for x
    proof
      assume a: "length s < length x \<or> prefix x s"
      have "length x \<le> 7"
        using http_methods_lowercase_facts(3) [rule_format, OF x] by (rule conjunct1)
      then have p: "prefix x s"
        using a len seven by linarith
      show False
      proof (cases "x = m")
        case True
        then have "prefix m s"
          using p by simp
        then obtain t where "s = m @ t"
          by (auto elim: prefixE)
        then have "s = m"
          using len by simp
        then show ?thesis
          using ne by simp
      next
        case False
        have "prefix (map ascii_tolower x) (map ascii_tolower s)"
          using p by (rule map_mono_prefix)
        then have "prefix (map ascii_tolower x) (map ascii_tolower m)"
          by (simp only: low)
        then show ?thesis
          using no_other [OF x assms(1) False seven] by (rule notE [rotated])
      qed
    qed
    then have "find (\<lambda>x. length s < length x \<or> prefix x s) http_methods = None"
      unfolding find_None_iff by blast
    then show ?thesis
      unfolding code using True by (simp only: option.case if_True)
  qed
qed

theorem http_wrong_case_never_matches_witness:
  "''OPTIONS'' \<in> set http_methods \<and> differs_only_in_case ''Options'' ''OPTIONS'' \<and>
   is_http_protocol ''Options'' = Inr PROBE_NEXT \<and>
   ''POST'' \<in> set http_methods \<and> differs_only_in_case ''post'' ''POST'' \<and>
   is_http_protocol ''post'' = Inr PROBE_AGAIN"
proof -
  have m: "''OPTIONS'' \<in> set http_methods" "''POST'' \<in> set http_methods"
    by (simp_all add: http_methods_def)
  have d: "differs_only_in_case ''Options'' ''OPTIONS''" "differs_only_in_case ''post'' ''POST''"
    by (simp_all add: differs_only_in_case_def ascii_tolower_def)
  show ?thesis
    using m d http_wrong_case_never_matches [OF m(1) d(1)]
      http_wrong_case_never_matches [OF m(2) d(2)]
    by simp
qed

text \<open>
  C3 as stated fails for the methods shorter than OPTIONS: on \<^verbatim>\<open>get\<close>, three bytes
  without \<^verbatim>\<open>HTTP\<close> that differ from GET only in letter case, the probe returns AGAIN
  and not NEXT.
\<close>

theorem http_wrong_case_counterexample:
  "''GET'' \<in> set http_methods \<and> differs_only_in_case ''get'' ''GET'' \<and>
   length ''get'' = length ''GET'' \<and> \<not> sublist ''HTTP'' ''get'' \<and>
   is_http_protocol ''get'' = Inr PROBE_AGAIN \<and> PROBE_AGAIN \<noteq> PROBE_NEXT"
proof -
  have "is_http_protocol ''get'' = Inr PROBE_AGAIN"
    by code_simp
  then show ?thesis
    by (simp add: http_methods_def differs_only_in_case_def ascii_tolower_def sublist_code
        probe_results_distinct)
qed

subsection \<open>Bounded reads\<close>

lemma probes_return:
  "\<exists>r. is_ssh_protocol b = Inr r" "\<exists>r. is_openvpn_protocol b = Inr r"
  "\<exists>r. is_tinc_protocol b = Inr r" "\<exists>r. is_xmpp_protocol b = Inr r"
  "\<exists>r. is_http_protocol b = Inr r" "\<exists>r. is_adb_protocol b = Inr r"
  "\<exists>r. is_socks5_protocol char_is_signed b = Inr r" "\<exists>r. is_true b = Inr r"
  unfolding is_ssh_protocol_eq is_openvpn_protocol_eq is_tinc_protocol_eq is_xmpp_protocol_eq
    is_http_protocol_eq is_adb_protocol_eq is_socks5_protocol_eq is_true_def
  by (simp_all split: option.split)

lemma probes_wait_for_bytes:
  "length b < 4 \<longrightarrow> is_ssh_protocol b = Inr PROBE_AGAIN"
  "length b < 2 \<longrightarrow> is_openvpn_protocol b = Inr PROBE_AGAIN"
  "length b < 2 \<longrightarrow> is_tinc_protocol b = Inr PROBE_AGAIN"
  "length b < 50 \<and> \<not> sublist ''jabber'' b \<longrightarrow> is_xmpp_protocol b = Inr PROBE_AGAIN"
  "length b < 7 \<and> \<not> sublist ''HTTP'' b \<longrightarrow> is_http_protocol b = Inr PROBE_AGAIN"
  "length b < 30 \<longrightarrow> is_adb_protocol b = Inr PROBE_AGAIN"
  "length b < 54 \<and> \<not> (take 4 b = ''CNXN'' \<and> take 5 (drop 24 b) = ''host:'') \<longrightarrow>
     is_adb_protocol b = Inr PROBE_AGAIN"
  "length b < 2 \<longrightarrow> is_socks5_protocol char_is_signed b = Inr PROBE_AGAIN"
  "2 \<le> length b \<and> of_char (b ! 0) = (5::nat) \<and> 1 \<le> (of_char (b ! 1) :: nat) \<and>
   (of_char (b ! 1) :: nat) \<le> 10 \<and> length b < 2 + of_char (b ! 1) \<longrightarrow>
     is_socks5_protocol char_is_signed b = Inr PROBE_AGAIN"
  unfolding is_ssh_protocol_eq is_openvpn_protocol_eq is_tinc_protocol_eq is_xmpp_protocol_eq
    is_http_protocol_eq is_adb_protocol_eq is_socks5_protocol_eq
  by simp_all

lemma and_then_no_fault:
  assumes "\<not> is_Fault m" and "\<And>x. m = Got x \<Longrightarrow> \<not> is_Fault (k x)"
  shows "\<not> is_Fault (and_then m k)"
  using assms by (cases m) simp_all

lemma if_no_fault:
  "(c \<Longrightarrow> \<not> is_Fault a) \<Longrightarrow> (\<not> c \<Longrightarrow> \<not> is_Fault b) \<Longrightarrow> \<not> is_Fault (if c then a else b)"
  by simp

lemma no_fault_neq: "\<not> is_Fault m \<Longrightarrow> m \<noteq> Fault e"
  by auto

lemma take_u8_no_fault: "lim \<le> length p \<Longrightarrow> \<not> is_Fault (take_u8 p pos lim)"
  by (simp add: take_u8_def rd_def)

lemma take_u16_no_fault: "lim \<le> length p \<Longrightarrow> \<not> is_Fault (take_u16 p pos lim)"
  by (simp add: take_u16_def rd_def)

lemma take_u24_no_fault: "lim \<le> length p \<Longrightarrow> \<not> is_Fault (take_u24 p pos lim)"
  by (simp add: take_u24_def rd_def)

lemma read_bytes_in_range: "pos + n \<le> length p \<Longrightarrow> \<exists>cs. read_bytes p pos n = Inr cs"
proof (induction n arbitrary: pos)
  case 0
  then show ?case by simp
next
  case (Suc n)
  then have "Suc pos + n \<le> length p" "pos < length p"
    by simp_all
  with Suc.IH [of "Suc pos"] show ?case
    by (auto simp: rd_def)
qed

lemma take_bytes_no_fault: "lim \<le> length p \<Longrightarrow> \<not> is_Fault (take_bytes p pos n lim)"
proof (cases "lim < pos + n")
  case True
  then show ?thesis
    by (simp add: take_bytes_def)
next
  case False
  assume "lim \<le> length p"
  with False have "pos + n \<le> length p"
    by simp
  then obtain cs where "read_bytes p pos n = Inr cs"
    using read_bytes_in_range by blast
  then show ?thesis
    using False by (simp add: take_bytes_def)
qed

lemma sni_entries_no_fault: "lim \<le> length p \<Longrightarrow> \<not> is_Fault (sni_entries p pos lim)"
proof (induction p pos lim rule: sni_entries.induct)
  case (1 p pos lim)
  show ?case
  proof (cases "lim \<le> pos")
    case True
    then show ?thesis
      by (subst sni_entries.simps) simp
  next
    case False
    have "\<not> is_Fault
        (and_then (take_u8 p pos lim) (\<lambda>name_type.
         and_then (take_u16 p (pos + 1) lim) (\<lambda>n.
         and_then (take_bytes p (pos + 3) n lim) (\<lambda>server_name.
           if name_type = 0 then Got (Some server_name)
           else sni_entries p (pos + 3 + n) lim))))"
      using "1.prems" "1.IH" [OF False]
      by (intro and_then_no_fault take_u8_no_fault take_u16_no_fault take_bytes_no_fault) simp_all
    then show ?thesis
      using False by (subst sni_entries.simps) simp
  qed
qed

lemma alpn_entries_no_fault: "lim \<le> length p \<Longrightarrow> \<not> is_Fault (alpn_entries p pos lim)"
proof (induction p pos lim rule: alpn_entries.induct)
  case (1 p pos lim)
  show ?case
  proof (cases "lim \<le> pos")
    case True
    then show ?thesis
      by (subst alpn_entries.simps) simp
  next
    case False
    have "\<not> is_Fault
        (and_then (take_u8 p pos lim) (\<lambda>n.
         and_then (take_bytes p (pos + 1) n lim) (\<lambda>proto_name.
         and_then (alpn_entries p (pos + 1 + n) lim) (\<lambda>names.
           Got (proto_name # names)))))"
      using "1.prems" "1.IH" [OF False]
      by (intro and_then_no_fault take_u8_no_fault take_bytes_no_fault) simp_all
    then show ?thesis
      using False by (subst alpn_entries.simps) simp
  qed
qed

lemma sni_extension_no_fault: "lim \<le> length p \<Longrightarrow> \<not> is_Fault (sni_extension p pos lim)"
  unfolding sni_extension_def
  by (intro and_then_no_fault take_u16_no_fault) (simp_all add: sni_entries_no_fault)

lemma alpn_extension_no_fault: "lim \<le> length p \<Longrightarrow> \<not> is_Fault (alpn_extension p pos lim)"
  unfolding alpn_extension_def
  by (intro and_then_no_fault take_u16_no_fault) (simp_all add: alpn_entries_no_fault)

lemma extensions_no_fault:
  "lim \<le> length p \<Longrightarrow> \<not> is_Fault (extensions p pos lim sni alpn)"
proof (induction "lim - pos" arbitrary: pos sni alpn rule: less_induct)
  case less
  show ?case
  proof (cases "lim \<le> pos")
    case True
    then show ?thesis
      by (subst extensions.simps) simp
  next
    case False
    have next_ext: "\<not> is_Fault (extensions p (pos + 4 + ext_len) lim s a)" for ext_len s a
      using False less.prems by (intro less.hyps) simp_all
    have inner: "pos + 4 + ext_len \<le> length p" if "\<not> lim < pos + 4 + ext_len" for ext_len
      using that less.prems by simp
    have "\<not> is_Fault
        (and_then (take_u16 p pos lim) (\<lambda>ext_type.
         and_then (take_u16 p (pos + 2) lim) (\<lambda>ext_len.
           if lim < pos + 4 + ext_len then Done TLS_ELENGTH
           else if ext_type = 0 then
             and_then (sni_extension p (pos + 4) (pos + 4 + ext_len)) (\<lambda>found.
               extensions p (pos + 4 + ext_len) lim (if sni = None then found else sni) alpn)
           else if ext_type = 16 then
             and_then (alpn_extension p (pos + 4) (pos + 4 + ext_len)) (\<lambda>names.
               extensions p (pos + 4 + ext_len) lim sni (alpn @ names))
           else extensions p (pos + 4 + ext_len) lim sni alpn)))"
      by (intro and_then_no_fault if_no_fault take_u16_no_fault sni_extension_no_fault
          alpn_extension_no_fault next_ext inner less.prems)
        simp_all
    then show ?thesis
      using False by (subst extensions.simps) simp
  qed
qed

lemma client_hello_no_fault:
  assumes "lim \<le> length p"
  shows "\<not> is_Fault (client_hello p pos lim)"
proof -
  have inner: "n \<le> length p" if "\<not> lim < n" for n
    using that assms by simp
  show ?thesis
    unfolding client_hello_def
    by (intro and_then_no_fault if_no_fault take_u8_no_fault take_u16_no_fault
        take_u24_no_fault extensions_no_fault inner assms)
      simp_all
qed

lemma parse_tls_header_returns: "\<exists>s. parse_tls_header policy data p = Inr s"
proof (cases "length p < 5")
  case True
  then show ?thesis
    by (simp add: parse_tls_header_def)
next
  case False
  have hello: "client_hello p 5 (5 + record_len) \<noteq> Fault e"
    if "\<not> length p < 5 + record_len" for record_len e
    using that by (intro no_fault_neq client_hello_no_fault) simp
  have len: "take_u16 p 3 (length p) \<noteq> Fault e" for e
    by (intro no_fault_neq take_u16_no_fault) simp
  have "0 < length p" "1 < length p" "2 < length p"
    using False by linarith+
  then have reads: "rd p 0 = Inr (p ! 0)" "rd p 1 = Inr (p ! 1)" "rd p 2 = Inr (p ! 2)"
    by (simp_all only: rd_def if_True)
  show ?thesis
    unfolding parse_tls_header_def reads using False len hello
    by (auto split: parse.split prod.split)
qed

lemma is_tls_protocol_returns:
  "\<exists>r. is_tls_protocol (parse_tls_header policy) data p = Inr r"
proof -
  obtain s where "parse_tls_header policy data p = Inr s"
    using parse_tls_header_returns [of policy data p] by blast
  then show ?thesis
    by (cases s) (simp_all add: is_tls_protocol_def)
qed

lemma tls_waits_for_bytes:
  "length b < 5 \<longrightarrow> is_tls_protocol (parse_tls_header policy) data b = Inr PROBE_AGAIN"
  "5 \<le> length b \<and> b ! 0 = CHR 0x16 \<and> (of_char (b ! 2) :: nat) \<le> 4 \<and>
   length b < 5 + (256 * of_char (b ! 3) + of_char (b ! 4)) \<longrightarrow>
     is_tls_protocol (parse_tls_header policy) data b = Inr PROBE_AGAIN"
  "parse data b = Inr TLS_ELENGTH \<longrightarrow> is_tls_protocol parse data b = Inr PROBE_AGAIN"
proof -
  show "length b < 5 \<longrightarrow> is_tls_protocol (parse_tls_header policy) data b = Inr PROBE_AGAIN"
    by (simp add: is_tls_protocol_def parse_tls_header_def)
  show "parse data b = Inr TLS_ELENGTH \<longrightarrow> is_tls_protocol parse data b = Inr PROBE_AGAIN"
    by (simp add: is_tls_protocol_def)
  show "5 \<le> length b \<and> b ! 0 = CHR 0x16 \<and> (of_char (b ! 2) :: nat) \<le> 4 \<and>
     length b < 5 + (256 * of_char (b ! 3) + of_char (b ! 4)) \<longrightarrow>
       is_tls_protocol (parse_tls_header policy) data b = Inr PROBE_AGAIN"
  proof
    assume a: "5 \<le> length b \<and> b ! 0 = CHR 0x16 \<and> (of_char (b ! 2) :: nat) \<le> 4 \<and>
      length b < 5 + (256 * of_char (b ! 3) + of_char (b ! 4))"
    then have "0 < length b" "1 < length b" "2 < length b" "3 < length b" "3 + 1 < length b"
      by linarith+
    then have "rd b 0 = Inr (b ! 0)" "rd b 1 = Inr (b ! 1)" "rd b 2 = Inr (b ! 2)"
      "rd b 3 = Inr (b ! 3)" "rd b (3 + 1) = Inr (b ! (3 + 1))"
      by (simp_all only: rd_def if_True)
    then have reads: "rd b 0 = Inr (CHR 0x16)" "rd b 1 = Inr (b ! 1)" "rd b 2 = Inr (b ! 2)"
      "rd b 3 = Inr (b ! 3)" "rd b (3 + 1) = Inr (b ! 4)"
      using a by simp_all
    have "parse_tls_header policy data b = Inr TLS_ELENGTH"
      unfolding parse_tls_header_def take_u16_def reads using a by simp
    then show "is_tls_protocol (parse_tls_header policy) data b = Inr PROBE_AGAIN"
      by (simp add: is_tls_protocol_def)
  qed
qed

lemma read_bytes_unfold:
  "read_bytes p pos n =
     (if n = 0 then Inr []
      else (case rd p pos of
              Inl e \<Rightarrow> Inl e
            | Inr c \<Rightarrow>
                (case read_bytes p (Suc pos) (n - 1) of
                   Inl e \<Rightarrow> Inl e
                 | Inr cs \<Rightarrow> Inr (c # cs))))"
  by (cases n) (auto split: sum.splits)

lemma example_client_hello_parsed:
  "client_hello example_client_hello 5 81 = Got (Some ''example.com'', [''h2''])"
  by (simp add: client_hello_def extensions.simps sni_extension_def alpn_extension_def
      sni_entries.simps alpn_entries.simps take_u8_def take_u16_def take_u24_def take_bytes_def
      rd_def example_client_hello_def read_bytes_unfold del: read_bytes.simps)

lemma builtins_return:
  "\<forall>(name, P) \<in> set (builtins char_is_signed (parse_tls_header policy) data). \<exists>r. P b = Inr r"
  by (simp add: builtins_def probes_return is_tls_protocol_returns)

lemma regex_loop_result:
  "\<forall>rx \<in> set patterns. \<exists>m. regexec rx b = Inr m \<Longrightarrow>
   regex_loop regexec patterns b = Inr PROBE_MATCH \<or>
   regex_loop regexec patterns b = Inr PROBE_NEXT"
proof (induction patterns)
  case Nil
  then show ?case
    by (simp add: c_bool_def PROBE_NEXT_def)
next
  case (Cons rx rest)
  then obtain m where m: "regexec rx b = Inr m"
    by auto
  show ?case
  proof (cases m)
    case True
    then show ?thesis
      using m by (simp add: c_bool_def PROBE_MATCH_def)
  next
    case False
    then show ?thesis
      using m Cons by simp
  qed
qed

text \<open>
  C8. On every slice, every probe of the table \<^verbatim>\<open>builtins\<close> returns a result: none of
  its reads is outside the slice. For the TLS probe this is shown with the header parser
  of the specification. Where the next byte a probe needs is beyond the slice, its
  length check returns AGAIN before the read; the TLS probe returns AGAIN whenever its
  parser reports a missing byte (\<open>TLS_ELENGTH\<close>), as it does on fewer than five bytes
  and on an incomplete record. The regex probe, which is not in the table, reads no byte
  itself: when \<^verbatim>\<open>regexec\<close> returns on the slice for every pattern, the probe returns
  MATCH or NEXT.
\<close>

theorem bounded_reads:
  "(\<forall>(name, P) \<in> set (builtins char_is_signed (parse_tls_header policy) data).
      \<exists>r. P b = Inr r) \<and>
   (length b < 4 \<longrightarrow> is_ssh_protocol b = Inr PROBE_AGAIN) \<and>
   (length b < 2 \<longrightarrow> is_openvpn_protocol b = Inr PROBE_AGAIN) \<and>
   (length b < 2 \<longrightarrow> is_tinc_protocol b = Inr PROBE_AGAIN) \<and>
   (length b < 50 \<and> \<not> sublist ''jabber'' b \<longrightarrow> is_xmpp_protocol b = Inr PROBE_AGAIN) \<and>
   (length b < 7 \<and> \<not> sublist ''HTTP'' b \<longrightarrow> is_http_protocol b = Inr PROBE_AGAIN) \<and>
   (length b < 5 \<longrightarrow> is_tls_protocol (parse_tls_header policy) data b = Inr PROBE_AGAIN) \<and>
   (5 \<le> length b \<and> b ! 0 = CHR 0x16 \<and> (of_char (b ! 2) :: nat) \<le> 4 \<and>
    length b < 5 + (256 * of_char (b ! 3) + of_char (b ! 4)) \<longrightarrow>
      is_tls_protocol (parse_tls_header policy) data b = Inr PROBE_AGAIN) \<and>
   (parse data b = Inr TLS_ELENGTH \<longrightarrow> is_tls_protocol parse data b = Inr PROBE_AGAIN) \<and>
   (length b < 30 \<longrightarrow> is_adb_protocol b = Inr PROBE_AGAIN) \<and>
   (length b < 54 \<and> \<not> (take 4 b = ''CNXN'' \<and> take 5 (drop 24 b) = ''host:'') \<longrightarrow>
      is_adb_protocol b = Inr PROBE_AGAIN) \<and>
   (length b < 2 \<longrightarrow> is_socks5_protocol char_is_signed b = Inr PROBE_AGAIN) \<and>
   (2 \<le> length b \<and> of_char (b ! 0) = (5::nat) \<and> 1 \<le> (of_char (b ! 1) :: nat) \<and>
    (of_char (b ! 1) :: nat) \<le> 10 \<and> length b < 2 + of_char (b ! 1) \<longrightarrow>
      is_socks5_protocol char_is_signed b = Inr PROBE_AGAIN) \<and>
   ((\<forall>rx \<in> set patterns. \<exists>m. regexec rx b = Inr m) \<longrightarrow>
      regex_probe True regexec patterns b = Inr PROBE_MATCH \<or>
      regex_probe True regexec patterns b = Inr PROBE_NEXT)"
proof -
  have regex: "(\<forall>rx \<in> set patterns. \<exists>m. regexec rx b = Inr m) \<longrightarrow>
      regex_probe True regexec patterns b = Inr PROBE_MATCH \<or>
      regex_probe True regexec patterns b = Inr PROBE_NEXT"
    using regex_loop_result [of patterns regexec b] by (simp add: regex_probe_def)
  show ?thesis
    by (intro conjI builtins_return probes_wait_for_bytes tls_waits_for_bytes regex)
qed

theorem bounded_reads_witness:
  "length ''S'' < 2 \<and> \<not> sublist ''jabber'' ''S'' \<and> \<not> sublist ''HTTP'' ''S'' \<and>
   \<not> (take 4 ''S'' = ''CNXN'' \<and> take 5 (drop 24 ''S'') = ''host:'') \<and>
   is_ssh_protocol ''S'' = Inr PROBE_AGAIN \<and>
   is_openvpn_protocol ''S'' = Inr PROBE_AGAIN \<and>
   is_tinc_protocol ''S'' = Inr PROBE_AGAIN \<and>
   is_xmpp_protocol ''S'' = Inr PROBE_AGAIN \<and>
   is_http_protocol ''S'' = Inr PROBE_AGAIN \<and>
   is_tls_protocol (parse_tls_header (\<lambda>d sni alpn. True)) () ''S'' = Inr PROBE_AGAIN \<and>
   is_adb_protocol ''S'' = Inr PROBE_AGAIN \<and>
   is_socks5_protocol False ''S'' = Inr PROBE_AGAIN \<and>
   regex_probe True (\<lambda>rx b. Inr (prefix rx b)) [''S''] ''S'' = Inr PROBE_MATCH \<and>
   of_char ([CHR 0x05, CHR 0x02, CHR 0x00] ! 0) = (5::nat) \<and>
   of_char ([CHR 0x05, CHR 0x02, CHR 0x00] ! 1) = (2::nat) \<and>
   is_socks5_protocol False [CHR 0x05, CHR 0x02, CHR 0x00] = Inr PROBE_AGAIN \<and>
   take 40 example_client_hello ! 0 = CHR 0x16 \<and>
   length (take 40 example_client_hello) <
     5 + (256 * of_char (take 40 example_client_hello ! 3) +
          of_char (take 40 example_client_hello ! 4)) \<and>
   is_tls_protocol (parse_tls_header (\<lambda>d sni alpn. True)) ()
     (take 40 example_client_hello) = Inr PROBE_AGAIN \<and>
   is_tls_protocol (parse_tls_header (\<lambda>d sni alpn. sni = Some d)) ''example.com''
     example_client_hello = Inr PROBE_MATCH \<and>
   is_tls_protocol (parse_tls_header (\<lambda>d sni alpn. sni = Some d)) ''other.com''
     example_client_hello = Inr PROBE_NEXT"
proof -
  let ?any = "\<lambda>(d::unit) (sni::string option) (alpn::string list). True"
  let ?engine = "\<lambda>(rx::string) (b::string). (Inr (prefix rx b) :: fault + bool)"
  have short: "length ''S'' < 2" "\<not> sublist ''jabber'' ''S''" "\<not> sublist ''HTTP'' ''S''"
    "\<not> (take 4 ''S'' = ''CNXN'' \<and> take 5 (drop 24 ''S'') = ''host:'')"
    by (simp_all add: sublist_code)
  have engine: "\<forall>rx \<in> set [''S'']. \<exists>m. ?engine rx ''S'' = Inr m"
    by auto
  have regex: "regex_probe True ?engine [''S''] ''S'' \<noteq> Inr PROBE_NEXT"
    by (simp add: regex_probe_def c_bool_def PROBE_NEXT_def)
  have socks: "of_char ([CHR 0x05, CHR 0x02, CHR 0x00] ! 0) = (5::nat)"
    "of_char ([CHR 0x05, CHR 0x02, CHR 0x00] ! 1) = (2::nat)"
    by simp_all
  have header: "5 \<le> length (take 40 example_client_hello)"
    "take 40 example_client_hello ! 0 = CHR 0x16"
    "(of_char (take 40 example_client_hello ! 2) :: nat) \<le> 4"
    "length (take 40 example_client_hello) <
       5 + (256 * of_char (take 40 example_client_hello ! 3) +
            of_char (take 40 example_client_hello ! 4))"
    by (simp_all add: example_client_hello_def)
  have bytes: "length example_client_hello = 81"
    "rd example_client_hello 0 = Inr (CHR 0x16)" "rd example_client_hello (Suc 0) = Inr (CHR 0x03)"
    "rd example_client_hello 2 = Inr (CHR 0x01)"
    "take_u16 example_client_hello 3 81 = Got 76"
    by (simp_all add: example_client_hello_def rd_def take_u16_def)
  have hello: "is_tls_protocol (parse_tls_header (\<lambda>d sni alpn. sni = Some d)) ''example.com''
      example_client_hello = Inr PROBE_MATCH"
    "is_tls_protocol (parse_tls_header (\<lambda>d sni alpn. sni = Some d)) ''other.com''
      example_client_hello = Inr PROBE_NEXT"
    by (simp_all add: is_tls_protocol_def parse_tls_header_def bytes
        example_client_hello_parsed)
  show ?thesis
    using short engine regex socks header hello
      bounded_reads [where char_is_signed = False and policy = ?any and data = "()" and
        b = "''S''" and parse = "parse_tls_header ?any" and regexec = ?engine and
        patterns = "[''S'']"]
      bounded_reads [where char_is_signed = False and policy = ?any and data = "()" and
        b = "[CHR 0x05, CHR 0x02, CHR 0x00]" and parse = "parse_tls_header ?any" and
        regexec = ?engine and patterns = "[]"]
      bounded_reads [where char_is_signed = False and policy = ?any and data = "()" and
        b = "take 40 example_client_hello" and parse = "parse_tls_header ?any" and
        regexec = ?engine and patterns = "[]"]
    by simp
qed

subsection \<open>The arbiter\<close>

lemma probe_buffer_end_eq:
  "protocols cfg \<noteq> [] \<Longrightarrow>
   probe_buffer_end cfg again =
     (if again \<noteq> 0 then Inr (PROBE_AGAIN, None)
      else Inr (PROBE_MATCH, Some (length (protocols cfg) - 1)))"
  by (cases "protocols cfg")
    (simp_all add: probe_buffer_end_def protocols_ref_def protocols_len_def)

lemma chain_from_end: "chain_from cfg (length (protocols cfg)) = []"
  by (simp add: chain_from_def)

lemma chain_from_step:
  "k < length (protocols cfg) \<Longrightarrow>
   chain_from cfg k =
     (if probe (protocols cfg ! k) \<noteq> None \<and>
         \<not> (Suc k = length (protocols cfg) \<and> name (protocols cfg ! k) = ''anyprot'')
      then k # chain_from cfg (Suc k) else chain_from cfg (Suc k))"
  by (simp add: chain_from_def upt_conv_Cons)

lemma probe_buffer_loop_step:
  assumes "k < length (protocols cfg)"
  shows "probe_buffer_loop cfg buf (int k) again =
     (case probe (protocols cfg ! k) of
        None \<Rightarrow> probe_buffer_loop cfg buf (int k + 1) again
      | Some probe_fn \<Rightarrow>
          if Suc k = length (protocols cfg) \<and> name (protocols cfg ! k) = ''anyprot''
            then probe_buffer_end cfg again
          else if minlength_is_present (protocols cfg ! k) \<and>
                  int (length buf) < minlength (protocols cfg ! k)
            then probe_buffer_loop cfg buf (int k + 1) (again + 1)
          else (case probe_fn buf of
                  Inl e \<Rightarrow> Inl e
                | Inr res \<Rightarrow>
                    if res = PROBE_MATCH then Inr (PROBE_MATCH, Some k)
                    else if res = PROBE_AGAIN
                      then probe_buffer_loop cfg buf (int k + 1) (again + 1)
                    else probe_buffer_loop cfg buf (int k + 1) again))"
proof -
  have last_iff: "(int k = protocols_len cfg - 1) = (Suc k = length (protocols cfg))"
    by (auto simp: protocols_len_def)
  have in_range: "0 \<le> int k \<and> int k < protocols_len cfg"
    using assms by (simp add: protocols_len_def)
  show ?thesis
    by (subst probe_buffer_loop.simps)
      (simp only: in_range if_True Let_def nat_int last_iff simp_thms)
qed

lemma probe_buffer_loop_eq:
  assumes "protocols cfg \<noteq> []" and "k \<le> length (protocols cfg)" and "0 \<le> again"
  shows "probe_buffer_loop cfg buf (int k) again =
     (case find (\<lambda>i. verdict cfg buf i = Inr PROBE_MATCH \<or> isl (verdict cfg buf i))
             (chain_from cfg k) of
        Some i \<Rightarrow> (case verdict cfg buf i of Inl e \<Rightarrow> Inl e | Inr _ \<Rightarrow> Inr (PROBE_MATCH, Some i))
      | None \<Rightarrow>
          if again \<noteq> 0 \<or> (\<exists>i \<in> set (chain_from cfg k). verdict cfg buf i = Inr PROBE_AGAIN)
          then Inr (PROBE_AGAIN, None)
          else Inr (PROBE_MATCH, Some (length (protocols cfg) - 1)))"
  using assms(2,3)
proof (induction "length (protocols cfg) - k" arbitrary: k again)
  case 0
  then have "k = length (protocols cfg)"
    by simp
  then show ?case
    using assms(1)
    by (subst probe_buffer_loop.simps)
      (simp add: protocols_len_def probe_buffer_end_eq chain_from_end)
next
  case (Suc d)
  define p where "p = protocols cfg ! k"
  define rest where "rest = chain_from cfg (Suc k)"
  define stops where
    "stops = (\<lambda>i. verdict cfg buf i = Inr PROBE_MATCH \<or> isl (verdict cfg buf i))"
  define found where
    "found = (\<lambda>i. case verdict cfg buf i of
                Inl e \<Rightarrow> (Inl e :: fault + int \<times> nat option)
              | Inr _ \<Rightarrow> Inr (PROBE_MATCH, Some i))"
  have k: "k < length (protocols cfg)"
    using Suc.hyps(2) by simp
  have ih: "probe_buffer_loop cfg buf (int k + 1) a =
     (case find stops rest of
        Some i \<Rightarrow> found i
      | None \<Rightarrow>
          if a \<noteq> 0 \<or> (\<exists>i \<in> set rest. verdict cfg buf i = Inr PROBE_AGAIN)
          then Inr (PROBE_AGAIN, None)
          else Inr (PROBE_MATCH, Some (length (protocols cfg) - 1)))" if "0 \<le> a" for a
  proof -
    have "d = length (protocols cfg) - Suc k" "Suc k \<le> length (protocols cfg)"
      using Suc.hyps(2) k by simp_all
    from Suc.hyps(1) [OF this that] have "probe_buffer_loop cfg buf (int (Suc k)) a =
     (case find stops rest of
        Some i \<Rightarrow> found i
      | None \<Rightarrow>
          if a \<noteq> 0 \<or> (\<exists>i \<in> set rest. verdict cfg buf i = Inr PROBE_AGAIN)
          then Inr (PROBE_AGAIN, None)
          else Inr (PROBE_MATCH, Some (length (protocols cfg) - 1)))"
      unfolding rest_def stops_def found_def .
    moreover have "int (Suc k) = int k + 1"
      by simp
    ultimately show ?thesis
      by (simp only:)
  qed
  note step = probe_buffer_loop_step [OF k, of buf again, folded p_def]
  note chain_k = chain_from_step [OF k, folded p_def rest_def]
  have again1: "0 \<le> again + 1" "again + 1 \<noteq> 0"
    using Suc.prems(2) by simp_all
  have goal: "probe_buffer_loop cfg buf (int k) again =
     (case find stops (chain_from cfg k) of
        Some i \<Rightarrow> found i
      | None \<Rightarrow>
          if again \<noteq> 0 \<or> (\<exists>i \<in> set (chain_from cfg k). verdict cfg buf i = Inr PROBE_AGAIN)
          then Inr (PROBE_AGAIN, None)
          else Inr (PROBE_MATCH, Some (length (protocols cfg) - 1)))"
  proof (cases "probe p")
    case None
    then have "chain_from cfg k = rest"
      "probe_buffer_loop cfg buf (int k) again = probe_buffer_loop cfg buf (int k + 1) again"
      unfolding chain_k step by simp_all
    then show ?thesis
      by (simp only: ih [OF Suc.prems(2)])
  next
    case (Some probe_fn)
    show ?thesis
    proof (cases "Suc k = length (protocols cfg) \<and> name p = ''anyprot''")
      case True
      then have "rest = []"
        by (simp add: rest_def chain_from_def)
      then have "chain_from cfg k = []"
        unfolding chain_k using True by simp
      moreover have "probe_buffer_loop cfg buf (int k) again = probe_buffer_end cfg again"
        unfolding step using Some True by simp
      ultimately show ?thesis
        using assms(1) by (simp add: probe_buffer_end_eq)
    next
      case False
      then have chain_cons: "chain_from cfg k = k # rest"
        unfolding chain_k using Some by simp
      show ?thesis
      proof (cases "minlength_is_present p \<and> int (length buf) < minlength p")
        case short: True
        then have v: "verdict cfg buf k = Inr PROBE_AGAIN"
          by (simp add: verdict_def p_def Let_def)
        have "probe_buffer_loop cfg buf (int k) again =
            probe_buffer_loop cfg buf (int k + 1) (again + 1)"
          unfolding step using Some False short by auto
        moreover have "\<not> stops k"
          by (simp add: stops_def v PROBE_AGAIN_def PROBE_MATCH_def)
        moreover have "\<exists>i \<in> set (k # rest). verdict cfg buf i = Inr PROBE_AGAIN"
          using v by simp
        ultimately show ?thesis
          unfolding chain_cons using again1(2) by (simp add: ih [OF again1(1)])
      next
        case long: False
        then have v: "verdict cfg buf k = probe_fn buf"
          using Some by (auto simp: verdict_def p_def Let_def)
        show ?thesis
        proof (cases "probe_fn buf")
          case (Inl e)
          then have "probe_buffer_loop cfg buf (int k) again = Inl e"
            unfolding step using Some False long by auto
          moreover have "stops k" "found k = Inl e"
            using Inl by (simp_all add: stops_def found_def v)
          ultimately show ?thesis
            unfolding chain_cons by simp
        next
          case (Inr res)
          consider "res = PROBE_MATCH" | "res = PROBE_AGAIN" | "res \<noteq> PROBE_MATCH" "res \<noteq> PROBE_AGAIN"
            by blast
          then show ?thesis
          proof cases
            case 1
            then have "probe_buffer_loop cfg buf (int k) again = Inr (PROBE_MATCH, Some k)"
              unfolding step using Some False long Inr by auto
            moreover have "stops k" "found k = Inr (PROBE_MATCH, Some k)"
              using Inr 1 by (simp_all add: stops_def found_def v)
            ultimately show ?thesis
              unfolding chain_cons by simp
          next
            case 2
            then have "probe_buffer_loop cfg buf (int k) again =
                probe_buffer_loop cfg buf (int k + 1) (again + 1)"
              unfolding step using Some False long Inr
              by (auto simp: PROBE_AGAIN_def PROBE_MATCH_def)
            moreover have "\<not> stops k"
              using Inr 2 by (simp add: stops_def v PROBE_AGAIN_def PROBE_MATCH_def)
            moreover have "\<exists>i \<in> set (k # rest). verdict cfg buf i = Inr PROBE_AGAIN"
              using v Inr 2 by simp
            ultimately show ?thesis
              unfolding chain_cons using again1(2) by (simp add: ih [OF again1(1)])
          next
            case 3
            then have a: "probe_buffer_loop cfg buf (int k) again =
                probe_buffer_loop cfg buf (int k + 1) again"
              unfolding step using Some False long Inr by auto
            have b: "\<not> stops k"
              using Inr 3 by (simp add: stops_def v)
            have c: "(\<exists>i \<in> set (k # rest). verdict cfg buf i = Inr PROBE_AGAIN) =
                (\<exists>i \<in> set rest. verdict cfg buf i = Inr PROBE_AGAIN)"
              using v Inr 3 by simp
            show ?thesis
              unfolding chain_cons a ih [OF Suc.prems(2)] c
              by (simp only: find.simps b if_False)
          qed
        qed
      qed
    qed
  qed
  then show ?case
    unfolding stops_def found_def .
qed

text \<open>
  C1. With at least one configured entry, \<^verbatim>\<open>probe_buffer\<close> goes through the chain in
  configured order: the entries without a probe are skipped, and so is the last entry
  when its name is \<^verbatim>\<open>anyprot\<close>. An entry whose \<^verbatim>\<open>min_length\<close> exceeds the length of
  the buffer is not invoked and has the verdict AGAIN. The scan stops at the first entry
  of the chain whose probe returns MATCH, and the result is MATCH with that entry (or at
  the first probe that does not return, and the result is its fault). When the scan
  reaches the end of the chain, the result is AGAIN without an entry if some verdict was
  AGAIN, and MATCH with the last configured entry otherwise.
\<close>

theorem probe_buffer_contract:
  assumes "protocols cfg \<noteq> []"
  shows "probe_buffer cfg buf =
     (case find (\<lambda>i. verdict cfg buf i = Inr PROBE_MATCH \<or> isl (verdict cfg buf i)) (chain cfg) of
        Some i \<Rightarrow> (case verdict cfg buf i of Inl e \<Rightarrow> Inl e | Inr _ \<Rightarrow> Inr (PROBE_MATCH, Some i))
      | None \<Rightarrow>
          if \<exists>i \<in> set (chain cfg). verdict cfg buf i = Inr PROBE_AGAIN
          then Inr (PROBE_AGAIN, None)
          else Inr (PROBE_MATCH, Some (length (protocols cfg) - 1)))"
proof -
  have "probe_buffer cfg buf = probe_buffer_loop cfg buf (int 0) 0"
    by (simp add: probe_buffer_def)
  also have "\<dots> =
     (case find (\<lambda>i. verdict cfg buf i = Inr PROBE_MATCH \<or> isl (verdict cfg buf i))
             (chain_from cfg 0) of
        Some i \<Rightarrow> (case verdict cfg buf i of Inl e \<Rightarrow> Inl e | Inr _ \<Rightarrow> Inr (PROBE_MATCH, Some i))
      | None \<Rightarrow>
          if (0::int) \<noteq> 0 \<or> (\<exists>i \<in> set (chain_from cfg 0). verdict cfg buf i = Inr PROBE_AGAIN)
          then Inr (PROBE_AGAIN, None)
          else Inr (PROBE_MATCH, Some (length (protocols cfg) - 1)))"
    by (rule probe_buffer_loop_eq [OF assms]) simp_all
  finally show ?thesis
    by (simp only: chain_def simp_thms)
qed

theorem probe_buffer_contract_witness:
  "protocols example_cfg \<noteq> [] \<and>
   probe_buffer example_cfg ''SSH-2.0-OpenSSH_8.9'' = Inr (PROBE_MATCH, Some 0) \<and>
   probe_buffer example_cfg ''GET / HTTP/1.1'' = Inr (PROBE_MATCH, Some 1) \<and>
   probe_buffer example_cfg ''SSH'' = Inr (PROBE_AGAIN, None) \<and>
   probe_buffer example_cfg ''0123456789'' = Inr (PROBE_MATCH, Some 2)"
proof -
  have ne: "protocols example_cfg \<noteq> []"
    by (simp add: example_cfg_def)
  have ch: "chain example_cfg = [0, Suc 0]"
    by code_simp
  have len: "length (protocols example_cfg) = 3"
    by (simp add: example_cfg_def)
  have ssh: "verdict example_cfg ''SSH-2.0-OpenSSH_8.9'' 0 = Inr PROBE_MATCH"
    by code_simp
  have get: "verdict example_cfg ''GET / HTTP/1.1'' 0 = Inr PROBE_NEXT"
    "verdict example_cfg ''GET / HTTP/1.1'' (Suc 0) = Inr PROBE_MATCH"
    by code_simp+
  have short: "verdict example_cfg ''SSH'' 0 = Inr PROBE_AGAIN"
    "verdict example_cfg ''SSH'' (Suc 0) = Inr PROBE_AGAIN"
    by code_simp+
  have digits: "verdict example_cfg ''0123456789'' 0 = Inr PROBE_NEXT"
    "verdict example_cfg ''0123456789'' (Suc 0) = Inr PROBE_NEXT"
    by code_simp+
  have "probe_buffer example_cfg ''SSH-2.0-OpenSSH_8.9'' = Inr (PROBE_MATCH, Some 0)"
    using probe_buffer_contract [OF ne, of "''SSH-2.0-OpenSSH_8.9''"]
    by (simp add: ch ssh)
  moreover have "probe_buffer example_cfg ''GET / HTTP/1.1'' = Inr (PROBE_MATCH, Some 1)"
    using probe_buffer_contract [OF ne, of "''GET / HTTP/1.1''"]
    by (simp add: ch get probe_results_distinct)
  moreover have "probe_buffer example_cfg ''SSH'' = Inr (PROBE_AGAIN, None)"
    using probe_buffer_contract [OF ne, of "''SSH''"]
    by (simp add: ch short probe_results_distinct)
  moreover have "probe_buffer example_cfg ''0123456789'' = Inr (PROBE_MATCH, Some 2)"
    using probe_buffer_contract [OF ne, of "''0123456789''"]
    by (simp add: ch digits len probe_results_distinct)
  ultimately show ?thesis
    using ne by simp
qed

subsection \<open>The read of the connection\<close>

lemma protocols_ref_last:
  "protocols cfg \<noteq> [] \<Longrightarrow>
   protocols_ref cfg (protocols_len cfg - 1) = Inr (length (protocols cfg) - 1)"
  by (cases "protocols cfg") (simp_all add: protocols_ref_def protocols_len_def)

text \<open>
  C9. When \<^verbatim>\<open>read\<close> yields no byte (\<open>n = 0\<close>) or an error (\<open>n < 0\<close>),
  \<^verbatim>\<open>probe_client_protocol\<close> selects the last configured entry and returns MATCH; it
  signals no error and leaves the deferred data alone. The configuration has at least
  one entry.
\<close>

theorem probe_client_protocol_read_failure:
  "n \<le> 0 \<Longrightarrow> protocols cfg \<noteq> [] \<Longrightarrow>
   probe_client_protocol cfg cnx n buffer =
     Inr (PROBE_MATCH, cnx\<lparr>proto := Some (length (protocols cfg) - 1)\<rparr>)"
  by (simp add: probe_client_protocol_def protocols_ref_last)

theorem probe_client_protocol_read_failure_witness:
  "(0::int) \<le> 0 \<and> (-1::int) \<le> 0 \<and> protocols example_cfg \<noteq> [] \<and>
   probe_client_protocol example_cfg \<lparr>deferred_data = [], proto = None\<rparr> 0 [] =
     Inr (PROBE_MATCH, \<lparr>deferred_data = [], proto = Some 2\<rparr>) \<and>
   probe_client_protocol example_cfg \<lparr>deferred_data = [], proto = None\<rparr> (-1) [] =
     Inr (PROBE_MATCH, \<lparr>deferred_data = [], proto = Some 2\<rparr>)"
proof -
  have ne: "protocols example_cfg \<noteq> []"
    by (simp add: example_cfg_def)
  have len: "length (protocols example_cfg) = 3"
    by (simp add: example_cfg_def)
  show ?thesis
    using ne
      probe_client_protocol_read_failure [of 0 example_cfg "\<lparr>deferred_data = [], proto = None\<rparr>" "[]"]
      probe_client_protocol_read_failure [of "-1" example_cfg "\<lparr>deferred_data = [], proto = None\<rparr>" "[]"]
    by (simp add: len)
qed

subsection \<open>The empty configuration\<close>

lemma timeout_protocol_loop_in_range:
  assumes "protocols cfg \<noteq> []" and "k \<le> length (protocols cfg)"
  shows "\<exists>i < length (protocols cfg). timeout_protocol_loop cfg (int k) = Inr i"
  using assms(2)
proof (induction "length (protocols cfg) - k" arbitrary: k)
  case 0
  then have "k = length (protocols cfg)"
    by simp
  then show ?case
    using assms(1)
    by (subst timeout_protocol_loop.simps) (simp add: protocols_len_def protocols_ref_def)
next
  case (Suc d)
  then have k: "k < length (protocols cfg)"
    by simp
  have "d = length (protocols cfg) - Suc k" "Suc k \<le> length (protocols cfg)"
    using Suc.hyps(2) by simp_all
  from Suc.hyps(1) [OF this]
  have ih: "\<exists>i < length (protocols cfg). timeout_protocol_loop cfg (int k + 1) = Inr i"
    by (simp add: add.commute)
  show ?case
    using k ih
    by (subst timeout_protocol_loop.simps) (auto simp: protocols_len_def protocols_ref_def)
qed

text \<open>
  C10. \<^verbatim>\<open>probe_buffer\<close> and \<^verbatim>\<open>timeout_protocol\<close> need at least one configured entry.
  With no entry, the fallback of \<^verbatim>\<open>probe_buffer\<close> indexes \<^verbatim>\<open>cfg.protocols[-1]\<close> and
  the fallback of \<^verbatim>\<open>timeout_protocol\<close> indexes \<^verbatim>\<open>cfg.protocols[0]\<close>, both outside the
  array. With an entry, the fallback of \<^verbatim>\<open>probe_buffer\<close> is the last entry and
  \<^verbatim>\<open>timeout_protocol\<close> returns an entry of the array.
\<close>

theorem protocols_must_not_be_empty:
  "(protocols cfg = [] \<longrightarrow>
      probe_buffer cfg buf = Inl (ProtocolIndexOutOfBounds (- 1)) \<and>
      timeout_protocol cfg = Inl (ProtocolIndexOutOfBounds 0)) \<and>
   (protocols cfg \<noteq> [] \<longrightarrow>
      probe_buffer_end cfg 0 = Inr (PROBE_MATCH, Some (length (protocols cfg) - 1)) \<and>
      (\<exists>i < length (protocols cfg). timeout_protocol cfg = Inr i))"
proof (cases "protocols cfg = []")
  case True
  have "probe_buffer cfg buf = Inl (ProtocolIndexOutOfBounds (- 1))"
    unfolding probe_buffer_def using True
    by (subst probe_buffer_loop.simps)
      (simp add: protocols_len_def probe_buffer_end_def protocols_ref_def)
  moreover have "timeout_protocol cfg = Inl (ProtocolIndexOutOfBounds 0)"
    unfolding timeout_protocol_def using True
    by (subst timeout_protocol_loop.simps) (simp add: protocols_len_def protocols_ref_def)
  ultimately show ?thesis
    using True by simp
next
  case False
  have "\<exists>i < length (protocols cfg). timeout_protocol_loop cfg (int 0) = Inr i"
    by (rule timeout_protocol_loop_in_range [OF False]) simp
  then show ?thesis
    using False by (simp add: timeout_protocol_def probe_buffer_end_eq)
qed

theorem protocols_must_not_be_empty_witness:
  "protocols empty_cfg = [] \<and>
   probe_buffer empty_cfg ''SSH-2.0'' = Inl (ProtocolIndexOutOfBounds (- 1)) \<and>
   timeout_protocol empty_cfg = Inl (ProtocolIndexOutOfBounds 0) \<and>
   protocols example_cfg \<noteq> [] \<and>
   probe_buffer_end example_cfg 0 = Inr (PROBE_MATCH, Some 2) \<and>
   (\<exists>i < length (protocols example_cfg). timeout_protocol example_cfg = Inr i)"
proof -
  have e: "protocols empty_cfg = []"
    by (simp add: empty_cfg_def)
  have ne: "protocols example_cfg \<noteq> []" and len: "length (protocols example_cfg) = 3"
    by (simp_all add: example_cfg_def)
  show ?thesis
    using e ne protocols_must_not_be_empty [of empty_cfg "''SSH-2.0''"]
      protocols_must_not_be_empty [of example_cfg "[]"]
    by (simp add: len)
qed

end
